theory Spec2Isabelle
  imports Main "HOL-Library.Sublist"
begin

section \<open>Data model of tools/trace\_lcs.py\<close>

text \<open>
  A Python \<^verbatim>\<open>str\<close> is a finite sequence of Unicode code points. A code point is
  modelled as a natural number and a string as a list of code points, so that
  the non-breaking space U+00A0 that the tools test for is a single character,
  as it is in Python.
\<close>

type_synonym pychar = nat
type_synonym pystr = "pychar list"

section \<open>tokenize\_words\<close>

text \<open>
  The \<^verbatim>\<open>for char in text\<close> loop of \<^verbatim>\<open>tokenize_words\<close>, with the two local
  variables \<^verbatim>\<open>tokens\<close> and \<^verbatim>\<open>current\<close> passed as state. The separator string
  \<^verbatim>\<open>' \t\n\r\u00a0'\<close> is the list of code points 32, 9, 10, 13, 160.
\<close>

definition word_separators :: pystr where
  "word_separators = [32, 9, 10, 13, 160]"

fun tokenize_words_loop :: "pystr list \<Rightarrow> pystr \<Rightarrow> pystr \<Rightarrow> pystr list \<times> pystr" where
  "tokenize_words_loop tokens current [] = (tokens, current)"
| "tokenize_words_loop tokens current (char # text) =
     (if char \<in> set word_separators then
        (if current \<noteq> [] then tokenize_words_loop ((tokens @ [current]) @ [[char]]) [] text
         else tokenize_words_loop (tokens @ [[char]]) current text)
      else tokenize_words_loop tokens (current @ [char]) text)"

definition tokenize_words :: "pystr \<Rightarrow> pystr list" where
  "tokenize_words text =
     (case tokenize_words_loop [] [] text of
        (tokens, current) \<Rightarrow> if current \<noteq> [] then tokens @ [current] else tokens)"

definition tokenize_chars :: "pystr \<Rightarrow> pystr list" where
  "tokenize_chars text = map (\<lambda>c. [c]) text"

section \<open>Edits\<close>

text \<open>The enum \<^verbatim>\<open>EditOp\<close> and the dataclass \<^verbatim>\<open>Edit\<close>. The token type is a
  parameter: the alignment code only compares tokens with \<^verbatim>\<open>==\<close>; the tools
  instantiate it with \<^typ>\<open>pystr\<close>.\<close>

datatype EditOp = EQUAL | DELETE | INSERT

record 'a Edit =
  op :: EditOp
  tokens :: "'a list"
  pos1 :: "nat option"
  pos2 :: "nat option"

section \<open>compute\_lcs\_matrix\<close>

text \<open>
  The matrix is a list of rows of Python integers. \<^verbatim>\<open>[[0] * (n + 1) for _ in
  range(m + 1)]\<close> builds \<open>m + 1\<close> separate rows, so an assignment to
  \<^verbatim>\<open>matrix[i][j]\<close> changes one cell of one row. \<open>lcs_cell\<close> is the body of the inner
  loop, and the two \<^verbatim>\<open>for\<close> loops over \<^verbatim>\<open>range(1, m + 1)\<close> and \<^verbatim>\<open>range(1, n + 1)\<close>
  are folds over \<open>[1..<m + 1]\<close> and \<open>[1..<n + 1]\<close>. Every index the loops use is
  in range: \<open>1 \<le> i \<le> m\<close> and \<open>1 \<le> j \<le> n\<close>, in a matrix of \<open>m + 1\<close> rows of
  length \<open>n + 1\<close>.
\<close>

definition lcs_cell :: "'a list \<Rightarrow> 'a list \<Rightarrow> nat \<Rightarrow> nat \<Rightarrow> int list list \<Rightarrow> int list list" where
  "lcs_cell seq1 seq2 i j matrix =
     (if seq1 ! (i - 1) = seq2 ! (j - 1) then
        matrix[i := (matrix ! i)[j := matrix ! (i - 1) ! (j - 1) + 1]]
      else
        matrix[i := (matrix ! i)[j := max (matrix ! (i - 1) ! j) (matrix ! i ! (j - 1))]])"

definition lcs_row :: "'a list \<Rightarrow> 'a list \<Rightarrow> nat \<Rightarrow> int list list \<Rightarrow> int list list" where
  "lcs_row seq1 seq2 i matrix =
     fold (\<lambda>j matrix. lcs_cell seq1 seq2 i j matrix) [1..<length seq2 + 1] matrix"

definition compute_lcs_matrix :: "'a list \<Rightarrow> 'a list \<Rightarrow> int list list" where
  "compute_lcs_matrix seq1 seq2 =
     (let m = length seq1; n = length seq2;
          matrix = replicate (m + 1) (replicate (n + 1) 0)
      in fold (\<lambda>i matrix. lcs_row seq1 seq2 i matrix) [1..<m + 1] matrix)"

section \<open>backtrack\_lcs\<close>

text \<open>
  \<^verbatim>\<open>backtrack_lcs\<close> takes the matrix as an argument, so a read of it can be out
  of range; a Python list read out of range raises \<^verbatim>\<open>IndexError\<close>, which is a
  value here. The indices \<open>i\<close>, \<open>j\<close> start at the two lengths and are only
  decremented while positive, so they are natural numbers, and every index
  computed from them is non-negative.
\<close>

datatype py_error = IndexError

definition item :: "'a list \<Rightarrow> nat \<Rightarrow> py_error + 'a" where
  "item xs k = (if k < length xs then Inr (xs ! k) else Inl IndexError)"

definition cell :: "int list list \<Rightarrow> nat \<Rightarrow> nat \<Rightarrow> py_error + int" where
  "cell matrix i j = (case item matrix i of Inl e \<Rightarrow> Inl e | Inr r \<Rightarrow> item r j)"

text \<open>The condition \<^verbatim>\<open>i > 0 and j > 0 and seq1[i - 1] == seq2[j - 1]\<close>.\<close>

definition is_match :: "'a list \<Rightarrow> 'a list \<Rightarrow> nat \<Rightarrow> nat \<Rightarrow> py_error + bool" where
  "is_match seq1 seq2 i j =
     (if i > 0 \<and> j > 0 then
        (case item seq1 (i - 1) of Inl e \<Rightarrow> Inl e
         | Inr a \<Rightarrow> (case item seq2 (j - 1) of Inl e \<Rightarrow> Inl e | Inr b \<Rightarrow> Inr (a = b)))
      else Inr False)"

text \<open>The condition \<^verbatim>\<open>j > 0 and (i == 0 or matrix[i][j - 1] >= matrix[i - 1][j])\<close>.\<close>

definition is_insert :: "int list list \<Rightarrow> nat \<Rightarrow> nat \<Rightarrow> py_error + bool" where
  "is_insert matrix i j =
     (if j > 0 then
        (if i = 0 then Inr True
         else (case cell matrix i (j - 1) of Inl e \<Rightarrow> Inl e
               | Inr a \<Rightarrow> (case cell matrix (i - 1) j of Inl e \<Rightarrow> Inl e | Inr b \<Rightarrow> Inr (a \<ge> b))))
      else Inr False)"

text \<open>
  One pass through the body of the \<^verbatim>\<open>while\<close> loop, on the state \<open>(i, j, edits)\<close>.
  The body is an \<^verbatim>\<open>if\<close>/\<^verbatim>\<open>elif\<close>/\<^verbatim>\<open>elif\<close> chain with no \<^verbatim>\<open>else\<close>: when no branch
  is taken the state is unchanged. The \<^verbatim>\<open>trace\<close> argument only prints and is
  left out.
\<close>

definition backtrack_step ::
  "int list list \<Rightarrow> 'a list \<Rightarrow> 'a list \<Rightarrow> nat \<times> nat \<times> 'a Edit list
     \<Rightarrow> py_error + nat \<times> nat \<times> 'a Edit list" where
  "backtrack_step matrix seq1 seq2 s =
     (case s of (i, j, edits) \<Rightarrow>
        (case is_match seq1 seq2 i j of Inl e \<Rightarrow> Inl e
         | Inr eq \<Rightarrow>
             if eq then
               (case item seq1 (i - 1) of Inl e \<Rightarrow> Inl e
                | Inr t \<Rightarrow> Inr (i - 1, j - 1, edits @
                    [\<lparr>op = EQUAL, tokens = [t], pos1 = Some (i - 1), pos2 = Some (j - 1)\<rparr>]))
             else
               (case is_insert matrix i j of Inl e \<Rightarrow> Inl e
                | Inr ins \<Rightarrow>
                    if ins then
                      (case item seq2 (j - 1) of Inl e \<Rightarrow> Inl e
                       | Inr t \<Rightarrow> Inr (i, j - 1, edits @
                           [\<lparr>op = INSERT, tokens = [t], pos1 = None, pos2 = Some (j - 1)\<rparr>]))
                    else if i > 0 then
                      (case item seq1 (i - 1) of Inl e \<Rightarrow> Inl e
                       | Inr t \<Rightarrow> Inr (i - 1, j, edits @
                           [\<lparr>op = DELETE, tokens = [t], pos1 = Some (i - 1), pos2 = None\<rparr>]))
                    else Inr (i, j, edits))))"

text \<open>
  The \<^verbatim>\<open>while i > 0 or j > 0\<close> loop. Under the loop condition one of the three
  branches is always taken and \<open>i + j\<close> decreases, which is the termination
  proof; an \<^verbatim>\<open>IndexError\<close> leaves the loop.
\<close>

function backtrack_loop ::
  "int list list \<Rightarrow> 'a list \<Rightarrow> 'a list \<Rightarrow> nat \<times> nat \<times> 'a Edit list \<Rightarrow> py_error + 'a Edit list" where
  "backtrack_loop matrix seq1 seq2 (i, j, edits) =
     (if i > 0 \<or> j > 0 then
        (case backtrack_step matrix seq1 seq2 (i, j, edits) of Inl e \<Rightarrow> Inl e
         | Inr s \<Rightarrow> backtrack_loop matrix seq1 seq2 s)
      else Inr edits)"
  by pat_completeness auto
termination
proof (relation "measure (\<lambda>(matrix, seq1, seq2, i, j, edits). i + j)")
  show "wf (measure (\<lambda>(matrix, seq1, seq2, i, j, edits). i + j))" by simp
next
  fix matrix :: "int list list" and seq1 seq2 :: "'a list" and i j :: nat
    and edits :: "'a Edit list" and s :: "nat \<times> nat \<times> 'a Edit list"
  assume pos: "0 < i \<or> 0 < j"
    and step: "backtrack_step matrix seq1 seq2 (i, j, edits) = Inr s"
  obtain i' j' edits' where s: "s = (i', j', edits')" by (cases s)
  from step pos have "i' + j' < i + j"
    unfolding s backtrack_step_def is_match_def is_insert_def
    by (auto split: sum.splits if_splits)
  then show "((matrix, seq1, seq2, s), (matrix, seq1, seq2, i, j, edits))
      \<in> measure (\<lambda>(matrix, seq1, seq2, i, j, edits). i + j)"
    by (simp add: s)
qed

definition backtrack_lcs :: "int list list \<Rightarrow> 'a list \<Rightarrow> 'a list \<Rightarrow> py_error + 'a Edit list" where
  "backtrack_lcs matrix seq1 seq2 =
     (case backtrack_loop matrix seq1 seq2 (length seq1, length seq2, []) of
        Inl e \<Rightarrow> Inl e
      | Inr edits \<Rightarrow> Inr (rev edits))"

section \<open>coalesce\_edits\<close>

text \<open>
  The loop of \<^verbatim>\<open>coalesce_edits\<close> over \<^verbatim>\<open>edits[1:]\<close>, with the list \<^verbatim>\<open>coalesced\<close>
  and the running group \<^verbatim>\<open>current\<close> passed as state. \<^verbatim>\<open>list(edit.tokens)\<close> copies
  the token list, so the running group shares nothing with the input and
  \<^verbatim>\<open>current.tokens.extend\<close> is an append on the group's own field.
\<close>

fun coalesce_loop :: "'a Edit list \<Rightarrow> 'a Edit \<Rightarrow> 'a Edit list \<Rightarrow> 'a Edit list" where
  "coalesce_loop coalesced current [] = coalesced @ [current]"
| "coalesce_loop coalesced current (edit # rest) =
     (if op edit = op current then
        coalesce_loop coalesced (current\<lparr>tokens := tokens current @ tokens edit\<rparr>) rest
      else
        coalesce_loop (coalesced @ [current])
          \<lparr>op = op edit, tokens = tokens edit, pos1 = pos1 edit, pos2 = pos2 edit\<rparr> rest)"

fun coalesce_edits :: "'a Edit list \<Rightarrow> 'a Edit list" where
  "coalesce_edits [] = []"
| "coalesce_edits (first # rest) =
     coalesce_loop []
       \<lparr>op = op first, tokens = tokens first, pos1 = pos1 first, pos2 = pos2 first\<rparr> rest"

text \<open>
  The specification's notion of a run, written from its words and not from the
  code: \<open>runs\<close> cuts an edit script into its maximal runs of consecutive edits
  with one operation, and \<open>group_of\<close> is the revision group of a run: the
  run's operation, the concatenation of its token runs, and the two positions
  of the run's first edit.
\<close>

function runs :: "'a Edit list \<Rightarrow> 'a Edit list list" where
  "runs [] = []"
| "runs (e # es) =
     (e # takeWhile (\<lambda>x. op x = op e) es) # runs (dropWhile (\<lambda>x. op x = op e) es)"
  by pat_completeness auto
termination
  by (relation "measure length") (simp_all add: length_dropWhile_le le_imp_less_Suc)

definition group_of :: "'a Edit list \<Rightarrow> 'a Edit" where
  "group_of run =
     \<lparr>op = op (hd run), tokens = concat (map tokens run),
      pos1 = pos1 (hd run), pos2 = pos2 (hd run)\<rparr>"

section \<open>Reference notions for the alignment matrix\<close>

text \<open>
  \<open>lcs_length\<close> is the textbook recursion for the length of a longest common
  subsequence, on the first elements of two lists. It is the yardstick the
  matrix is measured against: \<open>lcs_prefix seq1 seq2 i j\<close> is its value on the
  first \<open>i\<close> tokens of \<open>seq1\<close> and the first \<open>j\<close> tokens of \<open>seq2\<close> (taken from
  the back, as the matrix recurrence looks at the last token of a prefix).
  \<open>filled seq1 seq2 i j matrix\<close> is the state of the matrix when the loops
  are about to write cell \<open>(i, j)\<close>: the shape is \<open>(m + 1) \<times> (n + 1)\<close>, and row
  0, column 0, the rows before \<open>i\<close> and the cells of row \<open>i\<close> before \<open>j\<close> hold
  their final values.
\<close>

fun lcs_length :: "'a list \<Rightarrow> 'a list \<Rightarrow> nat" where
  "lcs_length [] ys = 0"
| "lcs_length (x # xs) [] = 0"
| "lcs_length (x # xs) (y # ys) =
     (if x = y then Suc (lcs_length xs ys)
      else max (lcs_length xs (y # ys)) (lcs_length (x # xs) ys))"

definition lcs_prefix :: "'a list \<Rightarrow> 'a list \<Rightarrow> nat \<Rightarrow> nat \<Rightarrow> int" where
  "lcs_prefix seq1 seq2 i j = int (lcs_length (rev (take i seq1)) (rev (take j seq2)))"

definition filled :: "'a list \<Rightarrow> 'a list \<Rightarrow> nat \<Rightarrow> nat \<Rightarrow> int list list \<Rightarrow> bool" where
  "filled seq1 seq2 i j matrix \<longleftrightarrow>
     length matrix = length seq1 + 1 \<and>
     (\<forall>r \<le> length seq1. length (matrix ! r) = length seq2 + 1) \<and>
     (\<forall>r c. r \<le> length seq1 \<and> c \<le> length seq2 \<and>
            (r = 0 \<or> c = 0 \<or> r < i \<or> (r = i \<and> c < j))
        \<longrightarrow> matrix ! r ! c = lcs_prefix seq1 seq2 r c)"

section \<open>Reading the two sequences back from an edit script\<close>

text \<open>
  From the specification's words: the token runs of the \<^verbatim>\<open>EQUAL\<close> and \<^verbatim>\<open>DELETE\<close>
  edits of a script, concatenated in script order, and those of its \<^verbatim>\<open>EQUAL\<close>
  and \<^verbatim>\<open>INSERT\<close> edits.
\<close>

definition equal_delete_tokens :: "'a Edit list \<Rightarrow> 'a list" where
  "equal_delete_tokens edits =
     concat (map tokens (filter (\<lambda>e. op e = EQUAL \<or> op e = DELETE) edits))"

definition equal_insert_tokens :: "'a Edit list \<Rightarrow> 'a list" where
  "equal_insert_tokens edits =
     concat (map tokens (filter (\<lambda>e. op e = EQUAL \<or> op e = INSERT) edits))"

section \<open>The Python runtime the section locator relies on\<close>

text \<open>
  The locator calls \<^verbatim>\<open>str.lower\<close>, \<^verbatim>\<open>str.strip\<close>, \<^verbatim>\<open>str.lstrip\<close> and the \<^verbatim>\<open>re\<close> module on
  Unicode strings. What these do on ASCII is fixed and written out below. What
  they do beyond ASCII comes from the Unicode tables of the Python runtime,
  which are not part of this repository: they are parameters, collected in the
  record \<open>pyrt\<close>, and nothing is assumed about them.
  \<^item> \<open>uni_isspace\<close>: the code points from 128 on that \<^verbatim>\<open>str.isspace\<close> accepts; the
    same test decides \<^verbatim>\<open>\s\<close> of a \<^verbatim>\<open>str\<close> pattern and what \<^verbatim>\<open>strip\<close> removes;
  \<^item> \<open>uni_isdecimal\<close>: the code points from 128 on that \<^verbatim>\<open>\d\<close> matches;
  \<^item> \<open>uni_ci_roman\<close>: the code points from 128 on that the class \<^verbatim>\<open>[ivxlcdm]\<close>
    matches under \<^verbatim>\<open>re.IGNORECASE\<close>;
  \<^item> \<open>str_lower\<close>: \<^verbatim>\<open>str.lower\<close> on strings that are not pure ASCII.
\<close>

record pyrt =
  uni_isspace :: "pychar \<Rightarrow> bool"
  uni_isdecimal :: "pychar \<Rightarrow> bool"
  uni_ci_roman :: "pychar \<Rightarrow> bool"
  str_lower :: "pystr \<Rightarrow> pystr"

text \<open>An ASCII string literal as a Python string.\<close>

definition py :: "string \<Rightarrow> pystr" where
  "py s = map of_char s"

definition is_space :: "pyrt \<Rightarrow> pychar \<Rightarrow> bool" where
  "is_space rt c =
     (if c < 128 then (9 \<le> c \<and> c \<le> 13) \<or> (28 \<le> c \<and> c \<le> 32) else uni_isspace rt c)"

definition is_decimal :: "pyrt \<Rightarrow> pychar \<Rightarrow> bool" where
  "is_decimal rt c = (if c < 128 then 48 \<le> c \<and> c \<le> 57 else uni_isdecimal rt c)"

definition ascii_lower :: "pychar \<Rightarrow> pychar" where
  "ascii_lower c = (if 65 \<le> c \<and> c \<le> 90 then c + 32 else c)"

definition lower :: "pyrt \<Rightarrow> pystr \<Rightarrow> pystr" where
  "lower rt s = (if list_all (\<lambda>c. c < 128) s then map ascii_lower s else str_lower rt s)"

definition lstrip :: "pyrt \<Rightarrow> pystr \<Rightarrow> pystr" where
  "lstrip rt s = dropWhile (is_space rt) s"

definition rstrip :: "pyrt \<Rightarrow> pystr \<Rightarrow> pystr" where
  "rstrip rt s = rev (dropWhile (is_space rt) (rev s))"

definition strip :: "pyrt \<Rightarrow> pystr \<Rightarrow> pystr" where
  "strip rt s = rstrip rt (lstrip rt s)"

text \<open>\<^verbatim>\<open>sep.join(xs)\<close>.\<close>

fun join :: "pystr \<Rightarrow> pystr list \<Rightarrow> pystr" where
  "join sep [] = []"
| "join sep [x] = x"
| "join sep (x # y # ys) = x @ sep @ join sep (y # ys)"

section \<open>Regular expressions, as \<^verbatim>\<open>re.match\<close> runs them\<close>

text \<open>
  The patterns of the locator use character classes, concatenation, ordered
  alternation and the greedy quantifiers \<^verbatim>\<open>?\<close>, \<^verbatim>\<open>*\<close>, \<^verbatim>\<open>+\<close>. \<^verbatim>\<open>re\<close> is a backtracking
  matcher: it explores the ways a pattern can match from the start of the
  string in a fixed priority order (the left alternative first, one more
  repetition before one fewer) and the first way that lets the whole pattern
  match decides the groups. \<open>rx_match r s\<close> lists, in that order, what is left
  of \<open>s\<close> after each way of matching \<open>r\<close> at the start of \<open>s\<close>. A repetition
  whose body matched the empty string is not repeated.
\<close>

datatype rx =
    Cls "pychar \<Rightarrow> bool"
  | Seq rx rx
  | Alt rx rx
  | Opt rx
  | Star rx

fun rx_match :: "rx \<Rightarrow> pystr \<Rightarrow> pystr list" where
  "rx_match (Cls p) s = (case s of [] \<Rightarrow> [] | c # cs \<Rightarrow> if p c then [cs] else [])"
| "rx_match (Seq a b) s = concat (map (rx_match b) (rx_match a s))"
| "rx_match (Alt a b) s = rx_match a s @ rx_match b s"
| "rx_match (Opt a) s = rx_match a s @ [s]"
| "rx_match (Star a) s =
     concat (map (\<lambda>s'. if length s' < length s then rx_match (Star a) s' else [])
                 (rx_match a s)) @ [s]"

definition Plus :: "rx \<Rightarrow> rx" where
  "Plus a = Seq a (Star a)"

definition Lit :: "pychar \<Rightarrow> rx" where
  "Lit c = Cls (\<lambda>x. x = c)"

text \<open>
  \<^verbatim>\<open>re.match(r'^...$', s)\<close> without \<^verbatim>\<open>re.MULTILINE\<close>: \<^verbatim>\<open>^\<close> is the start of the
  string, and \<^verbatim>\<open>$\<close> matches at the end of the string and just before a newline
  that ends the string.
\<close>

definition rx_match_dollar :: "rx \<Rightarrow> pystr \<Rightarrow> bool" where
  "rx_match_dollar r s = list_ex (\<lambda>rest. rest = [] \<or> rest = [10]) (rx_match r s)"

section \<open>tools/extract\_section.py: section markers\<close>

text \<open>The character classes of the patterns.\<close>

definition space_or_nbsp :: "pyrt \<Rightarrow> pychar \<Rightarrow> bool" where
  "space_or_nbsp rt c \<longleftrightarrow> is_space rt c \<or> c = 160"

definition ascii_letter :: "pychar \<Rightarrow> bool" where
  "ascii_letter c \<longleftrightarrow> (97 \<le> c \<and> c \<le> 122) \<or> (65 \<le> c \<and> c \<le> 90)"

definition roman_lower :: "pychar \<Rightarrow> bool" where
  "roman_lower c \<longleftrightarrow> c \<in> set [105, 118, 120, 108, 99, 100, 109]"

definition roman_letter :: "pychar \<Rightarrow> bool" where
  "roman_letter c \<longleftrightarrow> c \<in> set [105, 118, 120, 108, 99, 100, 109, 73, 86, 88, 76, 67, 68, 77]"

definition roman_ignorecase :: "pyrt \<Rightarrow> pychar \<Rightarrow> bool" where
  "roman_ignorecase rt c = (if c < 128 then roman_letter c else uni_ci_roman rt c)"

text \<open>
  The five alternatives of the marker, in the order of \<^verbatim>\<open>SECTION_PATTERN\<close>:
  \<^verbatim>\<open>\d+(?:\.\d+)*\.?\<close>, \<^verbatim>\<open>\([a-zA-Z]\)\<close>, \<^verbatim>\<open>\([ivxlcdm]+\)\<close>, \<^verbatim>\<open>[a-zA-Z]\.\<close> and
  \<^verbatim>\<open>[ivxlcdmIVXLCDM]+\.\<close>. The code points 40, 41 and 46 are the two parentheses
  and the full stop.
\<close>

definition numeric_rx :: "pyrt \<Rightarrow> rx" where
  "numeric_rx rt =
     Seq (Plus (Cls (is_decimal rt)))
       (Seq (Star (Seq (Lit 46) (Plus (Cls (is_decimal rt))))) (Opt (Lit 46)))"

definition alpha_paren_rx :: rx where
  "alpha_paren_rx = Seq (Lit 40) (Seq (Cls ascii_letter) (Lit 41))"

definition roman_paren_rx :: rx where
  "roman_paren_rx = Seq (Lit 40) (Seq (Plus (Cls roman_lower)) (Lit 41))"

definition alpha_dot_rx :: rx where
  "alpha_dot_rx = Seq (Cls ascii_letter) (Lit 46)"

definition roman_dot_rx :: rx where
  "roman_dot_rx = Seq (Plus (Cls roman_letter)) (Lit 46)"

definition marker_rx :: "pyrt \<Rightarrow> rx" where
  "marker_rx rt =
     Alt (numeric_rx rt) (Alt alpha_paren_rx (Alt roman_paren_rx (Alt alpha_dot_rx roman_dot_rx)))"

text \<open>
  \<^verbatim>\<open>SECTION_PATTERN.match(text)\<close>: \<^verbatim>\<open>[\s\u00A0]*\<close>, the marker as group 1, then
  \<^verbatim>\<open>[\s\u00A0]+\<close>. The result is \<^verbatim>\<open>None\<close> when there is no match, and otherwise group 1
  of the first way to match, which is the part of the string between what the
  leading blanks left and what the marker left.
\<close>

definition SECTION_PATTERN_match :: "pyrt \<Rightarrow> pystr \<Rightarrow> pystr option" where
  "SECTION_PATTERN_match rt text =
     (case concat (map (\<lambda>r0.
              concat (map (\<lambda>r1.
                 if rx_match (Plus (Cls (space_or_nbsp rt))) r1 \<noteq> []
                 then [take (length r0 - length r1) r0] else [])
                (rx_match (marker_rx rt) r0)))
            (rx_match (Star (Cls (space_or_nbsp rt))) text)) of
        [] \<Rightarrow> None
      | group1 # _ \<Rightarrow> Some group1)"

definition is_section_start :: "pyrt \<Rightarrow> pystr \<Rightarrow> bool" where
  "is_section_start rt text \<longleftrightarrow> SECTION_PATTERN_match rt text \<noteq> None"

text \<open>
  The type strings \<^verbatim>\<open>'numeric'\<close>, \<^verbatim>\<open>'alpha_paren'\<close>, \<^verbatim>\<open>'roman_paren'\<close>, \<^verbatim>\<open>'alpha_dot'\<close>,
  \<^verbatim>\<open>'roman_dot'\<close> and \<^verbatim>\<open>''\<close> that \<^verbatim>\<open>get_section_level\<close> returns.
\<close>

datatype section_type = no_type | numeric | alpha_paren | roman_paren | alpha_dot | roman_dot

definition get_section_level :: "pyrt \<Rightarrow> pystr \<Rightarrow> int \<times> section_type" where
  "get_section_level rt text =
     (case SECTION_PATTERN_match rt text of
        None \<Rightarrow> (0, no_type)
      | Some group1 \<Rightarrow>
          (let marker = strip rt group1 in
           if rx_match_dollar (numeric_rx rt) marker then
             (int (length (filter (\<lambda>c. c = 46)
                     (rev (dropWhile (\<lambda>c. c = 46) (rev marker))))) + 1, numeric)
           else if rx_match_dollar alpha_paren_rx marker then (10, alpha_paren)
           else if rx_match_dollar
                     (Seq (Lit 40) (Seq (Plus (Cls (roman_ignorecase rt))) (Lit 41))) marker
                then (11, roman_paren)
           else if rx_match_dollar alpha_dot_rx marker then (10, alpha_dot)
           else if rx_match_dollar roman_dot_rx marker then (11, roman_dot)
           else (0, no_type)))"

section \<open>Paragraphs of a document tree\<close>

text \<open>
  An \<^verbatim>\<open>xml.etree.ElementTree.Element\<close>, with the parts the tools read: the
  tag, the text and the children. \<^verbatim>\<open>Element.iter(tag)\<close> walks the element and
  everything below it in document order and keeps the elements with the tag.
\<close>

datatype element = Element (etag: pystr) (etext: "pystr option") (children: "element list")

fun iter_all :: "element \<Rightarrow> element list" where
  "iter_all (Element t x cs) = Element t x cs # concat (map iter_all cs)"

definition iter :: "pystr \<Rightarrow> element \<Rightarrow> element list" where
  "iter t e = filter (\<lambda>x. etag x = t) (iter_all e)"

definition W :: pystr where
  "W = py ''{http://schemas.openxmlformats.org/wordprocessingml/2006/main}''"

definition get_paragraph_text :: "element \<Rightarrow> pystr" where
  "get_paragraph_text para =
     concat (map (\<lambda>t. case etext t of None \<Rightarrow> [] | Some x \<Rightarrow> x)
       (filter (\<lambda>t. etext t \<noteq> None \<and> etext t \<noteq> Some []) (iter (W @ py ''t'') para)))"

definition find_paragraphs :: "element \<Rightarrow> element list" where
  "find_paragraphs root = iter (W @ py ''p'') root"

section \<open>find\_section and find\_section\_text\<close>

text \<open>
  The test that a paragraph starts the section asked for, the same in both
  tools: the text, stripped on the left and lowercased, starts with the
  lowercased section id, and what follows is nothing or one of space, tab,
  newline and no-break space.
\<close>

definition starts_section :: "pyrt \<Rightarrow> pystr \<Rightarrow> pystr \<Rightarrow> bool" where
  "starts_section rt section_id text =
     (let text_normalized = lower rt (lstrip rt text);
          section_normalized = lower rt section_id
      in if take (length section_normalized) text_normalized = section_normalized then
           (case drop (length section_normalized) text_normalized of
              [] \<Rightarrow> True
            | c # _ \<Rightarrow> c \<in> set [32, 9, 10, 160])
         else False)"

text \<open>
  The loop of \<^verbatim>\<open>find_section\<close> over the paragraphs, with \<^verbatim>\<open>result\<close>, \<^verbatim>\<open>found\<close> and
  the pair \<^verbatim>\<open>target_level\<close>, \<^verbatim>\<open>target_type\<close> as state; the pair is \<^verbatim>\<open>None\<close> until the
  section is found. \<^verbatim>\<open>break\<close> returns the result.
\<close>

fun find_section_loop ::
  "pyrt \<Rightarrow> pystr \<Rightarrow> element list \<Rightarrow> bool \<Rightarrow> (int \<times> section_type) option \<Rightarrow> element list
     \<Rightarrow> element list" where
  "find_section_loop rt section_id result found target [] = result"
| "find_section_loop rt section_id result found target (para # paragraphs) =
     (let text = get_paragraph_text para in
      if \<not> found then
        (if starts_section rt section_id text then
           find_section_loop rt section_id (result @ [para]) True
             (Some (get_section_level rt text)) paragraphs
         else find_section_loop rt section_id result found target paragraphs)
      else
        (if is_section_start rt text \<and>
            (case get_section_level rt text of (level, stype) \<Rightarrow>
               (case target of None \<Rightarrow> False
                | Some (target_level, target_type) \<Rightarrow>
                    stype = target_type \<and> level \<le> target_level)
               \<or> (stype = numeric \<and> level \<le> 2))
         then result
         else find_section_loop rt section_id (result @ [para]) found target paragraphs))"

definition find_section :: "pyrt \<Rightarrow> element \<Rightarrow> pystr \<Rightarrow> element list" where
  "find_section rt root section_id =
     find_section_loop rt section_id [] False None (find_paragraphs root)"

text \<open>
  \<^verbatim>\<open>find_section_text\<close> of tools/trace\_lcs.py. Reading the archive and parsing
  the XML are outside the model: the argument is the parsed document, or
  \<^verbatim>\<open>None\<close> when \<^verbatim>\<open>extract_xml_from_docx\<close> returned \<^verbatim>\<open>None\<close>. Its \<^verbatim>\<open>section_pattern\<close> is the
  same pattern as \<^verbatim>\<open>SECTION_PATTERN\<close>.
\<close>

fun find_section_text_loop ::
  "pyrt \<Rightarrow> pystr \<Rightarrow> pystr list \<Rightarrow> bool \<Rightarrow> element list \<Rightarrow> pystr list" where
  "find_section_text_loop rt section_id result_texts found [] = result_texts"
| "find_section_text_loop rt section_id result_texts found (para # paragraphs) =
     (let text = get_paragraph_text para in
      if \<not> found then
        (if starts_section rt section_id text then
           find_section_text_loop rt section_id (result_texts @ [text]) True paragraphs
         else find_section_text_loop rt section_id result_texts found paragraphs)
      else
        (if SECTION_PATTERN_match rt text \<noteq> None then result_texts
         else find_section_text_loop rt section_id (result_texts @ [text]) found paragraphs))"

definition find_section_text :: "pyrt \<Rightarrow> element option \<Rightarrow> pystr \<Rightarrow> pystr option" where
  "find_section_text rt xml_content section_id =
     (case xml_content of
        None \<Rightarrow> None
      | Some root \<Rightarrow>
          (let result_texts =
                 find_section_text_loop rt section_id [] False (find_paragraphs root)
           in if result_texts \<noteq> [] then Some (join [32] result_texts) else None))"

text \<open>
  A runtime with nothing beyond ASCII, to run the locator on ASCII documents.
\<close>

definition ascii_rt :: pyrt where
  "ascii_rt = \<lparr>uni_isspace = (\<lambda>c. False), uni_isdecimal = (\<lambda>c. False),
               uni_ci_roman = (\<lambda>c. False), str_lower = map ascii_lower\<rparr>"

text \<open>
  The boundary of a section in the specification's words: a paragraph whose
  text has a marker that either is of the numbering type of the section's
  first paragraph, at the same or a shallower depth, or is numeric at depth
  at most 2.
\<close>

definition section_boundary :: "pyrt \<Rightarrow> int \<times> section_type \<Rightarrow> pystr \<Rightarrow> bool" where
  "section_boundary rt target text \<longleftrightarrow>
     is_section_start rt text \<and>
     ((snd (get_section_level rt text) = snd target \<and>
       fst (get_section_level rt text) \<le> fst target) \<or>
      (snd (get_section_level rt text) = numeric \<and> fst (get_section_level rt text) \<le> 2))"

text \<open>
  Example documents: a paragraph \<^verbatim>\<open><w:p><w:r><w:t>...</w:t></w:r></w:p>\<close> with
  one run of text, and a document \<^verbatim>\<open><w:document><w:body>...</w:body></w:document>\<close>
  with the given paragraphs.
\<close>

definition example_para :: "string \<Rightarrow> element" where
  "example_para s =
     Element (W @ py ''p'') None
       [Element (W @ py ''r'') None [Element (W @ py ''t'') (Some (py s)) []]]"

definition example_document :: "element list \<Rightarrow> element" where
  "example_document ps =
     Element (W @ py ''document'') None [Element (W @ py ''body'') None ps]"

section \<open>Properties of the tokenizer\<close>

lemma tokenize_words_loop_concat:
  "tokenize_words_loop toks current text = (toks', current') \<Longrightarrow>
   concat toks' @ current' = concat toks @ current @ text"
  by (induction toks current "text" rule: tokenize_words_loop.induct)
     (auto split: if_splits)

text \<open>
  Claim C4. \<^verbatim>\<open>tokenize_words\<close> is defined on every string (the loop is a
  structural recursion over the text, so it returns for every input), the
  empty string gives the empty token sequence, and joining the tokens in
  order gives back the text.
\<close>

theorem tokenize_words_lossless:
  "tokenize_words [] = [] \<and> concat (tokenize_words text) = text"
proof
  show "tokenize_words [] = []" by (simp add: tokenize_words_def)
next
  obtain toks current where r: "tokenize_words_loop [] [] text = (toks, current)"
    by (cases "tokenize_words_loop [] [] text")
  from tokenize_words_loop_concat [OF r] have "concat toks @ current = text" by simp
  with r show "concat (tokenize_words text) = text"
    by (auto simp add: tokenize_words_def)
qed

section \<open>Properties of the coalescer\<close>

lemma coalesce_loop_length_le:
  "length (coalesce_loop acc cur rest) \<le> length acc + 1 + length rest"
proof (induction rest arbitrary: acc cur)
  case Nil
  show ?case by simp
next
  case (Cons e rest)
  show ?case
  proof (cases "op e = op cur")
    case True
    with Cons.IH [of acc "cur\<lparr>tokens := tokens cur @ tokens e\<rparr>"] show ?thesis by simp
  next
    case False
    with Cons.IH [of "acc @ [cur]" "\<lparr>op = op e, tokens = tokens e, pos1 = pos1 e, pos2 = pos2 e\<rparr>"]
    show ?thesis by simp
  qed
qed

lemma coalesce_loop_length_eq:
  "length (coalesce_loop acc cur rest) = length acc + 1 + length rest
   \<longleftrightarrow> distinct_adj (op cur # map op rest)"
proof (induction rest arbitrary: acc cur)
  case Nil
  show ?case by simp
next
  case (Cons e rest)
  show ?case
  proof (cases "op e = op cur")
    case True
    with coalesce_loop_length_le [of acc "cur\<lparr>tokens := tokens cur @ tokens e\<rparr>" rest]
    show ?thesis by simp
  next
    case False
    with Cons.IH [of "acc @ [cur]" "\<lparr>op = op e, tokens = tokens e, pos1 = pos1 e, pos2 = pos2 e\<rparr>"]
    show ?thesis by auto
  qed
qed

lemma coalesce_loop_runs:
  "coalesce_loop acc cur rest =
     acc @ cur\<lparr>tokens := tokens cur @ concat (map tokens (takeWhile (\<lambda>x. op x = op cur) rest))\<rparr>
       # map group_of (runs (dropWhile (\<lambda>x. op x = op cur) rest))"
proof (induction rest arbitrary: acc cur)
  case Nil
  show ?case by simp
next
  case (Cons e rest)
  show ?case
  proof (cases "op e = op cur")
    case True
    with Cons.IH [of acc "cur\<lparr>tokens := tokens cur @ tokens e\<rparr>"] show ?thesis by simp
  next
    case False
    with Cons.IH [of "acc @ [cur]" "\<lparr>op = op e, tokens = tokens e, pos1 = pos1 e, pos2 = pos2 e\<rparr>"]
    show ?thesis by (simp add: group_of_def)
  qed
qed

lemma runs_concat: "concat (runs edits) = edits"
  by (induction edits rule: runs.induct) simp_all

lemma takeWhile_same_op:
  "x \<in> set (takeWhile (\<lambda>x. op x = op e) es) \<Longrightarrow> op x = op e"
  by (induction es) (simp_all split: if_splits, blast)

lemma runs_same_op: "r \<in> set (runs edits) \<Longrightarrow> r \<noteq> [] \<and> (\<forall>e \<in> set r. op e = op (hd r))"
proof (induction edits rule: runs.induct)
  case 1
  then show ?case by simp
next
  case (2 e es)
  from "2.prems" have "r = e # takeWhile (\<lambda>x. op x = op e) es
    \<or> r \<in> set (runs (dropWhile (\<lambda>x. op x = op e) es))" by simp
  then show ?case
  proof
    assume r: "r = e # takeWhile (\<lambda>x. op x = op e) es"
    show ?thesis unfolding r
    proof (intro conjI ballI)
      show "e # takeWhile (\<lambda>x. op x = op e) es \<noteq> []" by simp
    next
      fix x assume "x \<in> set (e # takeWhile (\<lambda>x. op x = op e) es)"
      then have "x = e \<or> x \<in> set (takeWhile (\<lambda>x. op x = op e) es)" by simp
      then have "op x = op e" using takeWhile_same_op [of x e es] by blast
      then show "op x = op (hd (e # takeWhile (\<lambda>x. op x = op e) es))" by simp
    qed
  next
    assume "r \<in> set (runs (dropWhile (\<lambda>x. op x = op e) es))"
    then show ?thesis by (rule "2.IH")
  qed
qed

lemma runs_maximal: "distinct_adj (map (\<lambda>r. op (hd r)) (runs edits))"
proof (induction edits rule: runs.induct)
  case 1
  show ?case by simp
next
  case (2 e es)
  show ?case
  proof (cases "dropWhile (\<lambda>x. op x = op e) es")
    case Nil
    then show ?thesis by (simp del: dropWhile_eq_Nil_conv)
  next
    case (Cons d ds)
    then have "op d \<noteq> op e" using hd_dropWhile [of "\<lambda>x. op x = op e" es] by auto
    with 2 Cons show ?thesis by auto
  qed
qed

text \<open>
  Claim C5. The coalesced script is never longer than the raw script, and it
  has the same length exactly when no two adjacent raw edits have the same
  operation.
\<close>

theorem coalesce_edits_length:
  "length (coalesce_edits edits) \<le> length edits \<and>
   (length (coalesce_edits edits) = length edits \<longleftrightarrow>
    (\<forall>k. Suc k < length edits \<longrightarrow> op (edits ! k) \<noteq> op (edits ! Suc k)))"
proof (cases edits)
  case Nil
  then show ?thesis by simp
next
  case (Cons e es)
  let ?c = "\<lparr>op = op e, tokens = tokens e, pos1 = pos1 e, pos2 = pos2 e\<rparr>"
  have le: "length (coalesce_loop [] ?c es) \<le> 1 + length es"
    using coalesce_loop_length_le [of "[]" ?c es] by simp
  have eq: "length (coalesce_loop [] ?c es) = 1 + length es \<longleftrightarrow> distinct_adj (map op (e # es))"
    using coalesce_loop_length_eq [of "[]" ?c es] by simp
  have "distinct_adj (map op edits) \<longleftrightarrow>
        (\<forall>k. Suc k < length edits \<longrightarrow> op (edits ! k) \<noteq> op (edits ! Suc k))"
    by (simp add: distinct_adj_conv_nth)
  with le eq Cons show ?thesis by simp
qed

theorem coalesce_edits_length_witness:
  "length (coalesce_edits
     [\<lparr>op = DELETE, tokens = [''quick''], pos1 = Some 1, pos2 = None\<rparr>,
      \<lparr>op = DELETE, tokens = [''brown''], pos1 = Some 2, pos2 = None\<rparr>,
      \<lparr>op = INSERT, tokens = [''slow''], pos1 = None, pos2 = Some 1\<rparr>]) = 2 \<and>
   op \<lparr>op = DELETE, tokens = [''quick''], pos1 = Some 1, pos2 = None\<rparr> =
   op \<lparr>op = DELETE, tokens = [''brown''], pos1 = Some 2, pos2 = None\<rparr>"
  using coalesce_edits_length
    [of "[\<lparr>op = DELETE, tokens = [''quick''], pos1 = Some 1, pos2 = None\<rparr>,
          \<lparr>op = DELETE, tokens = [''brown''], pos1 = Some 2, pos2 = None\<rparr>,
          \<lparr>op = INSERT, tokens = [''slow''], pos1 = None, pos2 = Some 1\<rparr>]"]
  by simp

text \<open>
  Claim C7. The groups returned by \<^verbatim>\<open>coalesce_edits\<close> are the revision groups of
  the maximal same-operation runs of the raw script, in order: each group has
  the operation of its run, the concatenation of the run's token runs, and
  exactly the \<^verbatim>\<open>pos1\<close> and \<^verbatim>\<open>pos2\<close> of the run's first edit, so the later edits of
  a run extend the token run and leave both positions as they were. The runs
  are a partition of the script into non-empty blocks of one operation each,
  and neighbouring blocks differ in operation.
\<close>

theorem coalesce_edits_first_positions:
  "coalesce_edits edits = map group_of (runs edits) \<and>
   concat (runs edits) = edits \<and>
   (\<forall>r \<in> set (runs edits). r \<noteq> [] \<and> (\<forall>e \<in> set r. op e = op (hd r))) \<and>
   distinct_adj (map (\<lambda>r. op (hd r)) (runs edits))"
proof (intro conjI)
  show "coalesce_edits edits = map group_of (runs edits)"
  proof (cases edits)
    case Nil
    then show ?thesis by simp
  next
    case (Cons e es)
    then show ?thesis by (simp add: coalesce_loop_runs group_of_def)
  qed
  show "concat (runs edits) = edits" by (rule runs_concat)
  show "\<forall>r \<in> set (runs edits). r \<noteq> [] \<and> (\<forall>e \<in> set r. op e = op (hd r))"
    using runs_same_op by blast
  show "distinct_adj (map (\<lambda>r. op (hd r)) (runs edits))" by (rule runs_maximal)
qed

theorem coalesce_edits_first_positions_witness:
  "coalesce_edits
     [\<lparr>op = DELETE, tokens = [''quick''], pos1 = Some 1, pos2 = None\<rparr>,
      \<lparr>op = DELETE, tokens = [''brown''], pos1 = Some 2, pos2 = None\<rparr>,
      \<lparr>op = INSERT, tokens = [''slow''], pos1 = None, pos2 = Some 1\<rparr>] =
     [\<lparr>op = DELETE, tokens = [''quick'', ''brown''], pos1 = Some 1, pos2 = None\<rparr>,
      \<lparr>op = INSERT, tokens = [''slow''], pos1 = None, pos2 = Some 1\<rparr>]"
  using coalesce_edits_first_positions
    [of "[\<lparr>op = DELETE, tokens = [''quick''], pos1 = Some 1, pos2 = None\<rparr>,
          \<lparr>op = DELETE, tokens = [''brown''], pos1 = Some 2, pos2 = None\<rparr>,
          \<lparr>op = INSERT, tokens = [''slow''], pos1 = None, pos2 = Some 1\<rparr>]"]
  by (simp add: group_of_def)

section \<open>The alignment matrix holds the LCS lengths of all prefix pairs\<close>

lemma lcs_length_Nil2: "lcs_length xs [] = 0"
  by (cases xs) simp_all

lemma lcs_prefix_0_left: "lcs_prefix seq1 seq2 0 c = 0"
  by (simp add: lcs_prefix_def)

lemma lcs_prefix_0_right: "lcs_prefix seq1 seq2 r 0 = 0"
  by (simp add: lcs_prefix_def lcs_length_Nil2)

lemma lcs_prefix_Suc:
  assumes "i < length seq1" and "j < length seq2"
  shows "lcs_prefix seq1 seq2 (Suc i) (Suc j) =
     (if seq1 ! i = seq2 ! j then lcs_prefix seq1 seq2 i j + 1
      else max (lcs_prefix seq1 seq2 i (Suc j)) (lcs_prefix seq1 seq2 (Suc i) j))"
proof -
  have a: "rev (take (Suc i) seq1) = seq1 ! i # rev (take i seq1)"
    using assms(1) by (simp add: take_Suc_conv_app_nth)
  have b: "rev (take (Suc j) seq2) = seq2 ! j # rev (take j seq2)"
    using assms(2) by (simp add: take_Suc_conv_app_nth)
  show ?thesis
    unfolding lcs_prefix_def a b by (simp add: of_nat_max)
qed

lemma fold_upt_invariant:
  assumes "P a s" and "a \<le> b"
    and "\<And>k s. a \<le> k \<Longrightarrow> k < b \<Longrightarrow> P k s \<Longrightarrow> P (Suc k) (f k s)"
  shows "P b (fold f [a..<b] s)"
  using assms(2,3)
proof (induction b)
  case 0
  with assms(1) show ?case by simp
next
  case (Suc b)
  show ?case
  proof (cases "a = Suc b")
    case True
    with assms(1) show ?thesis by simp
  next
    case False
    with Suc.prems(1) have ab: "a \<le> b" by simp
    have "P b (fold f [a..<b] s)"
      using ab Suc.prems(2) by (intro Suc.IH) simp_all
    then have "P (Suc b) (f b (fold f [a..<b] s))"
      using ab by (intro Suc.prems(2)) simp_all
    with ab show ?thesis by simp
  qed
qed

lemma filled_init:
  "filled seq1 seq2 1 1 (replicate (length seq1 + 1) (replicate (length seq2 + 1) 0))"
  unfolding filled_def
proof (intro conjI allI impI)
  show "length (replicate (length seq1 + 1) (replicate (length seq2 + 1) (0::int))) = length seq1 + 1"
    by simp
next
  fix r assume "r \<le> length seq1"
  then show "length (replicate (length seq1 + 1) (replicate (length seq2 + 1) (0::int)) ! r)
      = length seq2 + 1" by (simp del: replicate.simps)
next
  fix r c
  assume h: "r \<le> length seq1 \<and> c \<le> length seq2 \<and> (r = 0 \<or> c = 0 \<or> r < 1 \<or> r = 1 \<and> c < 1)"
  then have "r = 0 \<or> c = 0" by auto
  then have "lcs_prefix seq1 seq2 r c = 0"
    using lcs_prefix_0_left lcs_prefix_0_right by blast
  with h show "replicate (length seq1 + 1) (replicate (length seq2 + 1) (0::int)) ! r ! c
      = lcs_prefix seq1 seq2 r c" by (simp del: replicate.simps)
qed

lemma filled_cell:
  assumes f: "filled seq1 seq2 i j M"
    and i: "0 < i" "i \<le> length seq1" and j: "0 < j" "j \<le> length seq2"
  shows "filled seq1 seq2 i (Suc j) (lcs_cell seq1 seq2 i j M)"
proof -
  let ?v = "if seq1 ! (i - 1) = seq2 ! (j - 1) then M ! (i - 1) ! (j - 1) + 1
            else max (M ! (i - 1) ! j) (M ! i ! (j - 1))"
  have M': "lcs_cell seq1 seq2 i j M = M[i := (M ! i)[j := ?v]]"
    by (simp add: lcs_cell_def)
  from f have len: "length M = length seq1 + 1"
    unfolding filled_def by blast
  from f have rows: "length (M ! r) = length seq2 + 1" if "r \<le> length seq1" for r
    using that unfolding filled_def by blast
  from f have cells: "M ! r ! c = lcs_prefix seq1 seq2 r c"
    if "r \<le> length seq1" "c \<le> length seq2" "r = 0 \<or> c = 0 \<or> r < i \<or> (r = i \<and> c < j)" for r c
    using that unfolding filled_def by blast
  have c1: "M ! (i - 1) ! (j - 1) = lcs_prefix seq1 seq2 (i - 1) (j - 1)"
    using i j by (intro cells) simp_all
  have c2: "M ! (i - 1) ! j = lcs_prefix seq1 seq2 (i - 1) j"
    using i j by (intro cells) simp_all
  have c3: "M ! i ! (j - 1) = lcs_prefix seq1 seq2 i (j - 1)"
    using i j by (intro cells) simp_all
  have "lcs_prefix seq1 seq2 (Suc (i - 1)) (Suc (j - 1)) =
     (if seq1 ! (i - 1) = seq2 ! (j - 1) then lcs_prefix seq1 seq2 (i - 1) (j - 1) + 1
      else max (lcs_prefix seq1 seq2 (i - 1) (Suc (j - 1))) (lcs_prefix seq1 seq2 (Suc (i - 1)) (j - 1)))"
    using i j by (intro lcs_prefix_Suc) simp_all
  with i j c1 c2 c3 have v: "?v = lcs_prefix seq1 seq2 i j" by simp
  have iM: "i < length M" using i len by simp
  have jM: "j < length (M ! i)" using rows [of i] i j by simp
  show ?thesis
    unfolding filled_def M'
  proof (intro conjI allI impI)
    show "length (M[i := (M ! i)[j := ?v]]) = length seq1 + 1" using len by simp
  next
    fix r assume "r \<le> length seq1"
    then show "length (M[i := (M ! i)[j := ?v]] ! r) = length seq2 + 1"
      using rows [of r] iM by (cases "r = i") simp_all
  next
    fix r c
    assume h: "r \<le> length seq1 \<and> c \<le> length seq2 \<and>
       (r = 0 \<or> c = 0 \<or> r < i \<or> r = i \<and> c < Suc j)"
    show "M[i := (M ! i)[j := ?v]] ! r ! c = lcs_prefix seq1 seq2 r c"
    proof (cases "r = i")
      case False
      then have "M[i := (M ! i)[j := ?v]] ! r ! c = M ! r ! c" by simp
      also have "\<dots> = lcs_prefix seq1 seq2 r c"
        using h False by (intro cells) auto
      finally show ?thesis .
    next
      case True
      show ?thesis
      proof (cases "c = j")
        case True
        with \<open>r = i\<close> iM jM have "M[i := (M ! i)[j := ?v]] ! r ! c = ?v" by simp
        with v True \<open>r = i\<close> show ?thesis by simp
      next
        case False
        with \<open>r = i\<close> iM have "M[i := (M ! i)[j := ?v]] ! r ! c = M ! r ! c" by simp
        also have "\<dots> = lcs_prefix seq1 seq2 r c"
          using h False \<open>r = i\<close> by (intro cells) auto
        finally show ?thesis .
      qed
    qed
  qed
qed

lemma filled_row:
  assumes f: "filled seq1 seq2 i 1 M" and i: "0 < i" "i \<le> length seq1"
  shows "filled seq1 seq2 i (Suc (length seq2)) (lcs_row seq1 seq2 i M)"
proof -
  have "filled seq1 seq2 i (Suc (length seq2))
          (fold (\<lambda>j matrix. lcs_cell seq1 seq2 i j matrix) [1..<Suc (length seq2)] M)"
  proof (rule fold_upt_invariant [where P = "\<lambda>j. filled seq1 seq2 i j"])
    show "filled seq1 seq2 i 1 M" by (rule f)
    show "1 \<le> Suc (length seq2)" by simp
  next
    fix k s
    assume "1 \<le> k" "k < Suc (length seq2)" "filled seq1 seq2 i k s"
    then show "filled seq1 seq2 i (Suc k) (lcs_cell seq1 seq2 i k s)"
      using i by (intro filled_cell) simp_all
  qed
  then show ?thesis by (simp add: lcs_row_def)
qed

lemma filled_next_row:
  assumes "filled seq1 seq2 i (Suc (length seq2)) M"
  shows "filled seq1 seq2 (Suc i) 1 M"
proof -
  from assms have len: "length M = length seq1 + 1"
    unfolding filled_def by blast
  from assms have rows: "\<forall>r \<le> length seq1. length (M ! r) = length seq2 + 1"
    unfolding filled_def by blast
  from assms have cells: "M ! r ! c = lcs_prefix seq1 seq2 r c"
    if "r \<le> length seq1" "c \<le> length seq2"
       "r = 0 \<or> c = 0 \<or> r < i \<or> (r = i \<and> c < Suc (length seq2))" for r c
    using that unfolding filled_def by blast
  show ?thesis
    unfolding filled_def
  proof (intro conjI allI impI)
    show "length M = length seq1 + 1" by (rule len)
  next
    fix r assume "r \<le> length seq1"
    with rows show "length (M ! r) = length seq2 + 1" by blast
  next
    fix r c
    assume h: "r \<le> length seq1 \<and> c \<le> length seq2 \<and>
       (r = 0 \<or> c = 0 \<or> r < Suc i \<or> r = Suc i \<and> c < 1)"
    then have "r = 0 \<or> c = 0 \<or> r < i \<or> (r = i \<and> c < Suc (length seq2))"
      by auto
    with h show "M ! r ! c = lcs_prefix seq1 seq2 r c"
      by (intro cells) simp_all
  qed
qed

lemma filled_compute_lcs_matrix:
  "filled seq1 seq2 (Suc (length seq1)) 1 (compute_lcs_matrix seq1 seq2)"
proof -
  let ?init = "replicate (length seq1 + 1) (replicate (length seq2 + 1) (0::int))"
  have "filled seq1 seq2 (Suc (length seq1)) 1
          (fold (\<lambda>i matrix. lcs_row seq1 seq2 i matrix) [1..<Suc (length seq1)] ?init)"
  proof (rule fold_upt_invariant [where P = "\<lambda>i. filled seq1 seq2 i 1"])
    show "filled seq1 seq2 1 1 ?init" by (rule filled_init)
    show "1 \<le> Suc (length seq1)" by simp
  next
    fix k s
    assume k: "1 \<le> k" "k < Suc (length seq1)" and f: "filled seq1 seq2 k 1 s"
    have "filled seq1 seq2 k (Suc (length seq2)) (lcs_row seq1 seq2 k s)"
      using f k by (intro filled_row) simp_all
    then show "filled seq1 seq2 (Suc k) 1 (lcs_row seq1 seq2 k s)"
      by (rule filled_next_row)
  qed
  then show ?thesis unfolding compute_lcs_matrix_def Let_def by simp
qed

lemma compute_lcs_matrix_length:
  "length (compute_lcs_matrix seq1 seq2) = length seq1 + 1"
  using filled_compute_lcs_matrix [of seq1 seq2] unfolding filled_def by blast

lemma compute_lcs_matrix_row_length:
  "r \<le> length seq1 \<Longrightarrow> length (compute_lcs_matrix seq1 seq2 ! r) = length seq2 + 1"
  using filled_compute_lcs_matrix [of seq1 seq2] unfolding filled_def by blast

lemma compute_lcs_matrix_cell:
  assumes "r \<le> length seq1" and "c \<le> length seq2"
  shows "compute_lcs_matrix seq1 seq2 ! r ! c = lcs_prefix seq1 seq2 r c"
proof -
  have "r = 0 \<or> c = 0 \<or> r < Suc (length seq1) \<or> (r = Suc (length seq1) \<and> c < 1)"
    using assms by simp
  with assms filled_compute_lcs_matrix [of seq1 seq2] show ?thesis
    unfolding filled_def by blast
qed

lemma lcs_length_attained:
  "\<exists>cs. subseq cs xs \<and> subseq cs ys \<and> length cs = lcs_length xs ys"
proof (induction xs ys rule: lcs_length.induct)
  case (1 ys)
  show ?case by (rule exI [of _ "[]"]) simp
next
  case (2 x xs)
  show ?case by (rule exI [of _ "[]"]) simp
next
  case (3 x xs y ys)
  show ?case
  proof (cases "x = y")
    case True
    with 3 obtain cs where "subseq cs xs" "subseq cs ys" "length cs = lcs_length xs ys"
      by blast
    with True show ?thesis by (intro exI [of _ "x # cs"]) simp
  next
    case False
    show ?thesis
    proof (cases "lcs_length (x # xs) ys \<le> lcs_length xs (y # ys)")
      case True
      from 3 False obtain cs where
        "subseq cs xs" "subseq cs (y # ys)" "length cs = lcs_length xs (y # ys)"
        by blast
      with False True show ?thesis
        by (intro exI [of _ cs]) (simp add: max_def list_emb_Cons)
    next
      case le: False
      from 3 False obtain cs where
        "subseq cs (x # xs)" "subseq cs ys" "length cs = lcs_length (x # xs) ys"
        by blast
      with False le show ?thesis
        by (intro exI [of _ cs]) (simp add: max_def list_emb_Cons)
    qed
  qed
qed

lemma lcs_length_upper:
  "subseq cs xs \<Longrightarrow> subseq cs ys \<Longrightarrow> length cs \<le> lcs_length xs ys"
proof (induction xs ys arbitrary: cs rule: lcs_length.induct)
  case (1 ys)
  then show ?case by simp
next
  case (2 x xs)
  then show ?case by simp
next
  case (3 x xs y ys)
  show ?case
  proof (cases cs)
    case Nil
    then show ?thesis by simp
  next
    case (Cons c cs')
    show ?thesis
    proof (cases "x = y")
      case True
      show ?thesis
      proof (cases "c = x")
        case cx: True
        with "3.prems" Cons True have "subseq cs' xs" "subseq cs' ys" by simp_all
        with "3.IH"(1) [OF True] have "length cs' \<le> lcs_length xs ys" by blast
        with Cons True show ?thesis by simp
      next
        case cx: False
        with "3.prems" Cons True have "subseq cs xs" "subseq cs ys" by simp_all
        with "3.IH"(1) [OF True] have "length cs \<le> lcs_length xs ys" by blast
        with True show ?thesis by simp
      qed
    next
      case False
      show ?thesis
      proof (cases "c = x")
        case cx: True
        with False have "c \<noteq> y" by simp
        with "3.prems" Cons have "subseq cs ys" by simp
        with "3.IH"(3) [OF False] "3.prems"(1) have "length cs \<le> lcs_length (x # xs) ys"
          by blast
        with False show ?thesis by simp
      next
        case cx: False
        with "3.prems" Cons have "subseq cs xs" by simp
        with "3.IH"(2) [OF False] "3.prems"(2) have "length cs \<le> lcs_length xs (y # ys)"
          by blast
        with False show ?thesis by simp
      qed
    qed
  qed
qed

lemma subseq_rev: "subseq xs ys \<Longrightarrow> subseq (rev xs) (rev ys)"
proof (induction rule: list_emb.induct)
  case (list_emb_Nil ys)
  show ?case by simp
next
  case (list_emb_Cons xs ys y)
  then show ?case by (simp add: subseq_rev_drop_many)
next
  case (list_emb_Cons2 x y xs ys)
  then show ?case by (simp add: list_emb_append_mono)
qed

lemma lcs_length_rev_attained:
  "\<exists>cs. subseq cs xs \<and> subseq cs ys \<and> length cs = lcs_length (rev xs) (rev ys)"
proof -
  obtain cs where cs: "subseq cs (rev xs)" "subseq cs (rev ys)"
    "length cs = lcs_length (rev xs) (rev ys)"
    using lcs_length_attained [of "rev xs" "rev ys"] by blast
  from cs(1) have "subseq (rev cs) xs" using subseq_rev [of cs "rev xs"] by simp
  moreover from cs(2) have "subseq (rev cs) ys" using subseq_rev [of cs "rev ys"] by simp
  ultimately show ?thesis using cs(3) by (intro exI [of _ "rev cs"]) simp
qed

lemma lcs_length_rev_upper:
  assumes "subseq cs xs" and "subseq cs ys"
  shows "length cs \<le> lcs_length (rev xs) (rev ys)"
proof -
  have "length (rev cs) \<le> lcs_length (rev xs) (rev ys)"
    using assms by (intro lcs_length_upper subseq_rev)
  then show ?thesis by simp
qed

text \<open>
  Claim C1. For all token sequences \<open>seq1\<close> and \<open>seq2\<close>, the last cell of the
  matrix returned by \<^verbatim>\<open>compute_lcs_matrix\<close>, \<^verbatim>\<open>matrix[len(seq1)][len(seq2)]\<close>, is the
  length of some common subsequence of the two sequences, and no common
  subsequence of them is longer.
\<close>

theorem compute_lcs_matrix_optimal:
  "(\<exists>cs. subseq cs seq1 \<and> subseq cs seq2 \<and>
      compute_lcs_matrix seq1 seq2 ! length seq1 ! length seq2 = int (length cs)) \<and>
   (\<forall>cs. subseq cs seq1 \<and> subseq cs seq2 \<longrightarrow>
      int (length cs) \<le> compute_lcs_matrix seq1 seq2 ! length seq1 ! length seq2)"
proof -
  have m: "compute_lcs_matrix seq1 seq2 ! length seq1 ! length seq2
      = int (lcs_length (rev seq1) (rev seq2))"
    using compute_lcs_matrix_cell [of "length seq1" seq1 "length seq2" seq2]
    by (simp add: lcs_prefix_def)
  show ?thesis
    unfolding m
  proof (intro conjI allI impI)
    from lcs_length_rev_attained [of seq1 seq2]
    show "\<exists>cs. subseq cs seq1 \<and> subseq cs seq2 \<and>
        int (lcs_length (rev seq1) (rev seq2)) = int (length cs)"
      by auto
  next
    fix cs assume "subseq cs seq1 \<and> subseq cs seq2"
    then show "int (length cs) \<le> int (lcs_length (rev seq1) (rev seq2))"
      using lcs_length_rev_upper [of cs seq1 seq2] by simp
  qed
qed

theorem compute_lcs_matrix_optimal_witness:
  "subseq [''x'', ''z''] [''x'', ''y'', ''z''] \<and> subseq [''x'', ''z''] [''x'', ''z''] \<and>
   int (length [''x'', ''z'']) \<le>
     compute_lcs_matrix [''x'', ''y'', ''z''] [''x'', ''z'']
       ! length [''x'', ''y'', ''z''] ! length [''x'', ''z'']"
proof -
  have h: "subseq [''x'', ''z''] [''x'', ''y'', ''z''] \<and> subseq [''x'', ''z''] [''x'', ''z'']"
    by simp
  with compute_lcs_matrix_optimal [of "[''x'', ''y'', ''z'']" "[''x'', ''z'']"]
  show ?thesis by blast
qed

section \<open>Properties of the backtracker\<close>

declare backtrack_loop.simps [simp del]

lemma item_in_range: "k < length xs \<Longrightarrow> item xs k = Inr (xs ! k)"
  by (simp add: item_def)

lemma cell_in_range:
  "i < length matrix \<Longrightarrow> j < length (matrix ! i) \<Longrightarrow> cell matrix i j = Inr (matrix ! i ! j)"
  by (simp add: cell_def item_def)

lemma is_match_in_range:
  assumes "i \<le> length seq1" and "j \<le> length seq2"
  shows "is_match seq1 seq2 i j = Inr (0 < i \<and> 0 < j \<and> seq1 ! (i - 1) = seq2 ! (j - 1))"
  using assms by (auto simp add: is_match_def item_def)

lemma is_insert_in_range:
  assumes len: "length matrix = length seq1 + 1"
    and rows: "\<And>r. r \<le> length seq1 \<Longrightarrow> length (matrix ! r) = length seq2 + 1"
    and i: "i \<le> length seq1" and j: "j \<le> length seq2"
  shows "is_insert matrix i j =
     Inr (0 < j \<and> (i = 0 \<or> matrix ! (i - 1) ! j \<le> matrix ! i ! (j - 1)))"
proof (cases "0 < j \<and> 0 < i")
  case False
  then show ?thesis by (auto simp add: is_insert_def)
next
  case True
  have a: "cell matrix i (j - 1) = Inr (matrix ! i ! (j - 1))"
    using len rows [of i] i j by (intro cell_in_range) simp_all
  have b: "cell matrix (i - 1) j = Inr (matrix ! (i - 1) ! j)"
    using len rows [of "i - 1"] i j by (intro cell_in_range) simp_all
  from True a b show ?thesis by (simp add: is_insert_def)
qed

text \<open>
  On a matrix of the right shape and a position inside the two sequences, no
  read is out of range and the loop body takes exactly one of its three
  branches.
\<close>

lemma backtrack_step_in_range:
  assumes len: "length matrix = length seq1 + 1"
    and rows: "\<And>r. r \<le> length seq1 \<Longrightarrow> length (matrix ! r) = length seq2 + 1"
    and i: "i \<le> length seq1" and j: "j \<le> length seq2"
    and pos: "0 < i \<or> 0 < j"
  shows "backtrack_step matrix seq1 seq2 (i, j, edits) =
     Inr (if 0 < i \<and> 0 < j \<and> seq1 ! (i - 1) = seq2 ! (j - 1) then
            (i - 1, j - 1, edits @
               [\<lparr>op = EQUAL, tokens = [seq1 ! (i - 1)], pos1 = Some (i - 1), pos2 = Some (j - 1)\<rparr>])
          else if 0 < j \<and> (i = 0 \<or> matrix ! (i - 1) ! j \<le> matrix ! i ! (j - 1)) then
            (i, j - 1, edits @
               [\<lparr>op = INSERT, tokens = [seq2 ! (j - 1)], pos1 = None, pos2 = Some (j - 1)\<rparr>])
          else
            (i - 1, j, edits @
               [\<lparr>op = DELETE, tokens = [seq1 ! (i - 1)], pos1 = Some (i - 1), pos2 = None\<rparr>]))"
proof -
  have m: "is_match seq1 seq2 i j = Inr (0 < i \<and> 0 < j \<and> seq1 ! (i - 1) = seq2 ! (j - 1))"
    using i j by (rule is_match_in_range)
  have n: "is_insert matrix i j =
     Inr (0 < j \<and> (i = 0 \<or> matrix ! (i - 1) ! j \<le> matrix ! i ! (j - 1)))"
    using len rows i j by (rule is_insert_in_range)
  have a: "item seq1 (i - 1) = Inr (seq1 ! (i - 1))" if "0 < i"
    using that i by (intro item_in_range) simp
  have b: "item seq2 (j - 1) = Inr (seq2 ! (j - 1))" if "0 < j"
    using that j by (intro item_in_range) simp
  show ?thesis
  proof (cases "0 < i \<and> 0 < j \<and> seq1 ! (i - 1) = seq2 ! (j - 1)")
    case True
    with m have m': "is_match seq1 seq2 i j = Inr True" by simp
    from True a have "item seq1 (i - 1) = Inr (seq1 ! (i - 1))" by simp
    with True show ?thesis by (simp add: backtrack_step_def m')
  next
    case nomatch: False
    with m have m': "is_match seq1 seq2 i j = Inr False" by simp
    show ?thesis
    proof (cases "0 < j \<and> (i = 0 \<or> matrix ! (i - 1) ! j \<le> matrix ! i ! (j - 1))")
      case True
      with n have n': "is_insert matrix i j = Inr True" by simp
      from True b have "item seq2 (j - 1) = Inr (seq2 ! (j - 1))" by simp
      with True nomatch show ?thesis by (simp add: backtrack_step_def m' n')
    next
      case False
      with n have n': "is_insert matrix i j = Inr False" by simp
      from False pos have ipos: "0 < i" by auto
      with a have "item seq1 (i - 1) = Inr (seq1 ! (i - 1))" by simp
      with False nomatch ipos show ?thesis by (simp add: backtrack_step_def m' n')
    qed
  qed
qed

lemma equal_delete_tokens_Cons:
  "equal_delete_tokens (e # es) =
     (if op e = EQUAL \<or> op e = DELETE then tokens e else []) @ equal_delete_tokens es"
  by (simp add: equal_delete_tokens_def)

lemma equal_insert_tokens_Cons:
  "equal_insert_tokens (e # es) =
     (if op e = EQUAL \<or> op e = INSERT then tokens e else []) @ equal_insert_tokens es"
  by (simp add: equal_insert_tokens_def)

lemma take_minus_one:
  "0 < i \<Longrightarrow> i \<le> length xs \<Longrightarrow> take i xs = take (i - 1) xs @ [xs ! (i - 1)]"
  using take_Suc_conv_app_nth [of "i - 1" xs] by simp

lemma backtrack_step_progress:
  assumes len: "length matrix = length seq1 + 1"
    and rows: "\<And>r. r \<le> length seq1 \<Longrightarrow> length (matrix ! r) = length seq2 + 1"
    and i: "i \<le> length seq1" and j: "j \<le> length seq2"
    and pos: "0 < i \<or> 0 < j"
  shows "\<exists>i' j' e. backtrack_step matrix seq1 seq2 (i, j, acc) = Inr (i', j', acc @ [e]) \<and>
      i' + j' < i + j \<and> i' \<le> length seq1 \<and> j' \<le> length seq2 \<and>
      take i seq1 = take i' seq1 @ (if op e = EQUAL \<or> op e = DELETE then tokens e else []) \<and>
      take j seq2 = take j' seq2 @ (if op e = EQUAL \<or> op e = INSERT then tokens e else [])"
proof -
  note step = backtrack_step_in_range [OF len rows i j pos, of acc]
  show ?thesis
  proof (cases "0 < i \<and> 0 < j \<and> seq1 ! (i - 1) = seq2 ! (j - 1)")
    case True
    let ?e = "\<lparr>op = EQUAL, tokens = [seq1 ! (i - 1)], pos1 = Some (i - 1), pos2 = Some (j - 1)\<rparr>"
    from True step have "backtrack_step matrix seq1 seq2 (i, j, acc) = Inr (i - 1, j - 1, acc @ [?e])"
      by simp
    moreover have "(i - 1) + (j - 1) < i + j" using True by simp
    moreover have "i - 1 \<le> length seq1" "j - 1 \<le> length seq2" using i j by simp_all
    moreover have "take i seq1 = take (i - 1) seq1 @ [seq1 ! (i - 1)]"
      using True i by (intro take_minus_one) simp_all
    moreover have "take j seq2 = take (j - 1) seq2 @ [seq1 ! (i - 1)]"
      using True j take_minus_one [of j seq2] by simp
    ultimately show ?thesis
      by (intro exI [of _ "i - 1"] exI [of _ "j - 1"] exI [of _ ?e]) simp
  next
    case nomatch: False
    show ?thesis
    proof (cases "0 < j \<and> (i = 0 \<or> matrix ! (i - 1) ! j \<le> matrix ! i ! (j - 1))")
      case True
      let ?e = "\<lparr>op = INSERT, tokens = [seq2 ! (j - 1)], pos1 = None, pos2 = Some (j - 1)\<rparr>"
      from True nomatch step
      have "backtrack_step matrix seq1 seq2 (i, j, acc) = Inr (i, j - 1, acc @ [?e])"
        by simp
      moreover have "i + (j - 1) < i + j" using True by simp
      moreover have "j - 1 \<le> length seq2" using j by simp
      moreover have "take j seq2 = take (j - 1) seq2 @ [seq2 ! (j - 1)]"
        using True j by (intro take_minus_one) simp_all
      ultimately show ?thesis
        using i by (intro exI [of _ i] exI [of _ "j - 1"] exI [of _ ?e]) simp
    next
      case False
      with pos have ipos: "0 < i" by auto
      let ?e = "\<lparr>op = DELETE, tokens = [seq1 ! (i - 1)], pos1 = Some (i - 1), pos2 = None\<rparr>"
      from False nomatch step
      have "backtrack_step matrix seq1 seq2 (i, j, acc) = Inr (i - 1, j, acc @ [?e])"
        by simp
      moreover have "(i - 1) + j < i + j" using ipos by simp
      moreover have "i - 1 \<le> length seq1" using i by simp
      moreover have "take i seq1 = take (i - 1) seq1 @ [seq1 ! (i - 1)]"
        using ipos i by (intro take_minus_one) simp_all
      ultimately show ?thesis
        using j by (intro exI [of _ "i - 1"] exI [of _ j] exI [of _ ?e]) simp
    qed
  qed
qed

lemma backtrack_loop_reconstructs:
  assumes len: "length matrix = length seq1 + 1"
    and rows: "\<And>r. r \<le> length seq1 \<Longrightarrow> length (matrix ! r) = length seq2 + 1"
  shows "i \<le> length seq1 \<Longrightarrow> j \<le> length seq2 \<Longrightarrow>
    \<exists>es. backtrack_loop matrix seq1 seq2 (i, j, acc) = Inr es \<and>
      equal_delete_tokens (rev es) = take i seq1 @ equal_delete_tokens (rev acc) \<and>
      equal_insert_tokens (rev es) = take j seq2 @ equal_insert_tokens (rev acc)"
proof (induction "i + j" arbitrary: i j acc rule: less_induct)
  case less
  show ?case
  proof (cases "0 < i \<or> 0 < j")
    case False
    then show ?thesis by (subst backtrack_loop.simps) simp
  next
    case pos: True
    from backtrack_step_progress [OF len rows less.prems pos, of acc]
    obtain i' j' e where
      s: "backtrack_step matrix seq1 seq2 (i, j, acc) = Inr (i', j', acc @ [e])"
      and dec: "i' + j' < i + j" and i': "i' \<le> length seq1" and j': "j' \<le> length seq2"
      and t1: "take i seq1 = take i' seq1 @ (if op e = EQUAL \<or> op e = DELETE then tokens e else [])"
      and t2: "take j seq2 = take j' seq2 @ (if op e = EQUAL \<or> op e = INSERT then tokens e else [])"
      by blast
    have l: "backtrack_loop matrix seq1 seq2 (i, j, acc)
        = backtrack_loop matrix seq1 seq2 (i', j', acc @ [e])"
      using pos by (subst backtrack_loop.simps) (simp add: s)
    from less.hyps [OF dec i' j', of "acc @ [e]"]
    obtain es where es: "backtrack_loop matrix seq1 seq2 (i', j', acc @ [e]) = Inr es"
      and e1: "equal_delete_tokens (rev es) = take i' seq1 @ equal_delete_tokens (rev (acc @ [e]))"
      and e2: "equal_insert_tokens (rev es) = take j' seq2 @ equal_insert_tokens (rev (acc @ [e]))"
      by blast
    have "equal_delete_tokens (rev es) = take i seq1 @ equal_delete_tokens (rev acc)"
      unfolding e1 t1 by (simp add: equal_delete_tokens_Cons)
    moreover have "equal_insert_tokens (rev es) = take j seq2 @ equal_insert_tokens (rev acc)"
      unfolding e2 t2 by (simp add: equal_insert_tokens_Cons)
    ultimately show ?thesis using l es by simp
  qed
qed

text \<open>
  Claim C2. For all token sequences \<open>seq1\<close> and \<open>seq2\<close>, \<^verbatim>\<open>backtrack_lcs\<close> on their
  matrix returns an edit script (no read is out of range and the loop ends),
  the token runs of its \<^verbatim>\<open>EQUAL\<close> and \<^verbatim>\<open>DELETE\<close> edits concatenated in
  script order are \<open>seq1\<close>, and those of its \<^verbatim>\<open>EQUAL\<close> and \<^verbatim>\<open>INSERT\<close> edits
  are \<open>seq2\<close>.
\<close>

theorem backtrack_lcs_reconstructs:
  "\<exists>edits. backtrack_lcs (compute_lcs_matrix seq1 seq2) seq1 seq2 = Inr edits \<and>
     equal_delete_tokens edits = seq1 \<and> equal_insert_tokens edits = seq2"
proof -
  have "\<exists>es. backtrack_loop (compute_lcs_matrix seq1 seq2) seq1 seq2
            (length seq1, length seq2, []) = Inr es \<and>
      equal_delete_tokens (rev es) = take (length seq1) seq1 @ equal_delete_tokens (rev []) \<and>
      equal_insert_tokens (rev es) = take (length seq2) seq2 @ equal_insert_tokens (rev [])"
    by (rule backtrack_loop_reconstructs
          [OF compute_lcs_matrix_length compute_lcs_matrix_row_length]) simp_all
  then obtain es where es:
    "backtrack_loop (compute_lcs_matrix seq1 seq2) seq1 seq2 (length seq1, length seq2, []) = Inr es"
    "equal_delete_tokens (rev es) = take (length seq1) seq1 @ equal_delete_tokens (rev [])"
    "equal_insert_tokens (rev es) = take (length seq2) seq2 @ equal_insert_tokens (rev [])"
    by blast
  have "backtrack_lcs (compute_lcs_matrix seq1 seq2) seq1 seq2 = Inr (rev es)"
    by (simp add: backtrack_lcs_def es(1))
  moreover have "equal_delete_tokens (rev es) = seq1"
    using es(2) by (simp add: equal_delete_tokens_def)
  moreover have "equal_insert_tokens (rev es) = seq2"
    using es(3) by (simp add: equal_insert_tokens_def)
  ultimately show ?thesis by blast
qed

theorem backtrack_lcs_reconstructs_witness:
  "\<exists>edits. backtrack_lcs (compute_lcs_matrix [''the'', ''quick'', ''fox''] [''the'', ''slow'', ''fox''])
       [''the'', ''quick'', ''fox''] [''the'', ''slow'', ''fox''] = Inr edits \<and>
     equal_delete_tokens edits = [''the'', ''quick'', ''fox''] \<and>
     equal_insert_tokens edits = [''the'', ''slow'', ''fox'']"
  by (rule backtrack_lcs_reconstructs)

text \<open>
  Claim C3. Let the backtracker be at a position \<open>(i, j)\<close> of the matrix of
  \<open>seq1\<close> and \<open>seq2\<close>, with \<open>i > 0\<close>, \<open>j > 0\<close>, the tokens \<open>seq1[i - 1]\<close> and
  \<open>seq2[j - 1]\<close> different, and \<open>matrix[i][j - 1] = matrix[i - 1][j]\<close>. Then
  the loop body appends an \<^verbatim>\<open>INSERT\<close> of \<open>seq2[j - 1]\<close> and decrements \<open>j\<close>,
  leaving \<open>i\<close>: a tie is resolved as an insertion, not a deletion.
\<close>

theorem backtrack_tie_prefers_insert:
  assumes "0 < i" and "i \<le> length seq1" and "0 < j" and "j \<le> length seq2"
    and "seq1 ! (i - 1) \<noteq> seq2 ! (j - 1)"
    and "compute_lcs_matrix seq1 seq2 ! i ! (j - 1) = compute_lcs_matrix seq1 seq2 ! (i - 1) ! j"
  shows "backtrack_step (compute_lcs_matrix seq1 seq2) seq1 seq2 (i, j, edits) =
     Inr (i, j - 1, edits @
       [\<lparr>op = INSERT, tokens = [seq2 ! (j - 1)], pos1 = None, pos2 = Some (j - 1)\<rparr>])"
proof -
  have pos: "0 < i \<or> 0 < j" using assms(1) by simp
  have "backtrack_step (compute_lcs_matrix seq1 seq2) seq1 seq2 (i, j, edits) =
     Inr (if 0 < i \<and> 0 < j \<and> seq1 ! (i - 1) = seq2 ! (j - 1) then
            (i - 1, j - 1, edits @
               [\<lparr>op = EQUAL, tokens = [seq1 ! (i - 1)], pos1 = Some (i - 1), pos2 = Some (j - 1)\<rparr>])
          else if 0 < j \<and> (i = 0 \<or> compute_lcs_matrix seq1 seq2 ! (i - 1) ! j
                                     \<le> compute_lcs_matrix seq1 seq2 ! i ! (j - 1)) then
            (i, j - 1, edits @
               [\<lparr>op = INSERT, tokens = [seq2 ! (j - 1)], pos1 = None, pos2 = Some (j - 1)\<rparr>])
          else
            (i - 1, j, edits @
               [\<lparr>op = DELETE, tokens = [seq1 ! (i - 1)], pos1 = Some (i - 1), pos2 = None\<rparr>]))"
    using assms(2) assms(4) pos
    by (intro backtrack_step_in_range compute_lcs_matrix_length compute_lcs_matrix_row_length)
  with assms show ?thesis by simp
qed

theorem backtrack_tie_prefers_insert_witness:
  "backtrack_step (compute_lcs_matrix [''a'', ''b''] [''b'', ''a'']) [''a'', ''b''] [''b'', ''a'']
     (2, 2, []) =
   Inr (2, 1, [\<lparr>op = INSERT, tokens = [''a''], pos1 = None, pos2 = Some 1\<rparr>])"
proof -
  have a: "compute_lcs_matrix [''a'', ''b''] [''b'', ''a''] ! 2 ! (2 - 1)
      = lcs_prefix [''a'', ''b''] [''b'', ''a''] 2 (2 - 1)"
    by (rule compute_lcs_matrix_cell) simp_all
  have b: "compute_lcs_matrix [''a'', ''b''] [''b'', ''a''] ! (2 - 1) ! 2
      = lcs_prefix [''a'', ''b''] [''b'', ''a''] (2 - 1) 2"
    by (rule compute_lcs_matrix_cell) simp_all
  have tie: "compute_lcs_matrix [''a'', ''b''] [''b'', ''a''] ! 2 ! (2 - 1)
      = compute_lcs_matrix [''a'', ''b''] [''b'', ''a''] ! (2 - 1) ! 2"
    unfolding a b by (simp add: lcs_prefix_def)
  have ne: "[''a'', ''b''] ! (2 - 1) \<noteq> [''b'', ''a''] ! (2 - 1)" by simp
  have "backtrack_step (compute_lcs_matrix [''a'', ''b''] [''b'', ''a''])
          [''a'', ''b''] [''b'', ''a''] (2, 2, []) =
        Inr (2, 2 - 1, [] @
          [\<lparr>op = INSERT, tokens = [[''b'', ''a''] ! (2 - 1)], pos1 = None, pos2 = Some (2 - 1)\<rparr>])"
    using ne tie by (intro backtrack_tie_prefers_insert) simp_all
  then show ?thesis by simp
qed

lemma backtrack_loop_identical:
  "i \<le> length seq \<Longrightarrow>
   backtrack_loop matrix seq seq (i, i, acc) =
     Inr (acc @ map (\<lambda>k. \<lparr>op = EQUAL, tokens = [seq ! k], pos1 = Some k, pos2 = Some k\<rparr>)
                  (rev [0..<i]))"
proof (induction i arbitrary: acc)
  case 0
  show ?case by (subst backtrack_loop.simps) simp
next
  case (Suc i)
  let ?e = "\<lparr>op = EQUAL, tokens = [seq ! i], pos1 = Some i, pos2 = Some i\<rparr>"
  from Suc.prems have m: "is_match seq seq (Suc i) (Suc i) = Inr True"
    by (simp add: is_match_in_range)
  from Suc.prems have it: "item seq i = Inr (seq ! i)"
    by (simp add: item_in_range)
  have s: "backtrack_step matrix seq seq (Suc i, Suc i, acc) = Inr (i, i, acc @ [?e])"
    by (simp add: backtrack_step_def m it)
  have "backtrack_loop matrix seq seq (Suc i, Suc i, acc)
      = backtrack_loop matrix seq seq (i, i, acc @ [?e])"
    by (subst backtrack_loop.simps) (simp add: s)
  also have "\<dots> = Inr ((acc @ [?e]) @
      map (\<lambda>k. \<lparr>op = EQUAL, tokens = [seq ! k], pos1 = Some k, pos2 = Some k\<rparr>) (rev [0..<i]))"
    using Suc.prems by (intro Suc.IH) simp
  finally show ?case by simp
qed

lemma coalesce_loop_same_op:
  "op cur = c \<Longrightarrow> \<forall>x \<in> set rest. op x = c \<Longrightarrow>
   length (coalesce_loop acc cur rest) = Suc (length acc)"
proof (induction rest arbitrary: cur)
  case Nil
  show ?case by simp
next
  case (Cons e rest)
  from Cons.prems have e: "op e = op cur" by simp
  have "length (coalesce_loop acc (cur\<lparr>tokens := tokens cur @ tokens e\<rparr>) rest) = Suc (length acc)"
    using Cons.prems by (intro Cons.IH) simp_all
  with e show ?case by simp
qed

lemma coalesce_edits_same_op:
  assumes "edits \<noteq> []" and "\<forall>x \<in> set edits. op x = EQUAL"
  shows "length (coalesce_edits edits) = 1"
proof (cases edits)
  case Nil
  with assms(1) show ?thesis by simp
next
  case (Cons e es)
  from assms(2) Cons
  have a: "op \<lparr>op = op e, tokens = tokens e, pos1 = pos1 e, pos2 = pos2 e\<rparr> = EQUAL"
    and b: "\<forall>x \<in> set es. op x = EQUAL" by simp_all
  from coalesce_loop_same_op [OF a b, of "[]"] Cons show ?thesis by simp
qed

text \<open>
  Claim C6, as the code has it. For identical token sequences the raw edit
  script of \<^verbatim>\<open>backtrack_lcs\<close> consists of \<^verbatim>\<open>EQUAL\<close> edits only. \<^verbatim>\<open>coalesce_edits\<close>
  makes exactly one group of it when the sequences are not empty; for two
  empty sequences the script is empty and \<^verbatim>\<open>coalesce_edits\<close> returns no group.
\<close>

theorem identical_sequences_all_equal:
  "\<exists>edits. backtrack_lcs (compute_lcs_matrix seq seq) seq seq = Inr edits \<and>
     (\<forall>e \<in> set edits. op e = EQUAL) \<and>
     length (coalesce_edits edits) = (if seq = [] then 0 else 1)"
proof -
  let ?es = "map (\<lambda>k. \<lparr>op = EQUAL, tokens = [seq ! k], pos1 = Some k, pos2 = Some k\<rparr>)
               [0..<length seq]"
  have "backtrack_loop (compute_lcs_matrix seq seq) seq seq (length seq, length seq, [])
      = Inr (rev ?es)"
    using backtrack_loop_identical [of "length seq" seq "compute_lcs_matrix seq seq" "[]"]
    by (simp add: rev_map)
  then have r: "backtrack_lcs (compute_lcs_matrix seq seq) seq seq = Inr ?es"
    by (simp add: backtrack_lcs_def)
  have eq: "\<forall>e \<in> set ?es. op e = EQUAL" by simp
  have "length (coalesce_edits ?es) = (if seq = [] then 0 else 1)"
  proof (cases "seq = []")
    case True
    then show ?thesis by simp
  next
    case False
    then have "?es \<noteq> []" by simp
    from coalesce_edits_same_op [OF this eq] False show ?thesis by simp
  qed
  with r eq show ?thesis by blast
qed

theorem identical_sequences_all_equal_witness:
  "\<exists>edits. backtrack_lcs (compute_lcs_matrix [''a'', ''b''] [''a'', ''b''])
       [''a'', ''b''] [''a'', ''b''] = Inr edits \<and>
     length (coalesce_edits edits) = 1"
  using identical_sequences_all_equal [of "[''a'', ''b'']"] by auto

theorem identical_empty_sequences_no_group:
  "backtrack_lcs (compute_lcs_matrix ([] :: string list) []) [] [] = Inr [] \<and>
   length (coalesce_edits ([] :: string Edit list)) \<noteq> 1"
  by (simp add: backtrack_lcs_def backtrack_loop.simps)

section \<open>Properties of the section locator\<close>

declare rx_match.simps(5) [simp del]

lemma rx_match_Star_Nil [simp]: "rx_match (Star a) [] = [[]]"
  by (simp add: rx_match.simps(5))

lemma rx_match_Star_Cons [simp]:
  "rx_match (Star a) (x # t) =
     concat (map (\<lambda>s'. if length s' < Suc (length t) then rx_match (Star a) s' else [])
                 (rx_match a (x # t))) @ [x # t]"
  by (simp add: rx_match.simps(5))

lemma rx_match_Star_nonempty: "rx_match (Star a) s \<noteq> []"
  by (cases s) simp_all

lemma rx_match_Star_Cls_prefix:
  assumes "\<forall>x \<in> set pre. P x"
  shows "\<exists>others. rx_match (Star (Cls P)) (pre @ s) = rx_match (Star (Cls P)) s @ others"
  using assms
proof (induction pre)
  case Nil
  show ?case by simp
next
  case (Cons x pre)
  then obtain others where
    "rx_match (Star (Cls P)) (pre @ s) = rx_match (Star (Cls P)) s @ others"
    by auto
  moreover from Cons.prems have "P x" by simp
  ultimately show ?case by simp
qed

lemma roman_letter_ascii_letter: "roman_letter c \<Longrightarrow> ascii_letter c"
  by (auto simp add: roman_letter_def ascii_letter_def)

lemma SECTION_PATTERN_match_paren_letter:
  assumes c: "roman_letter c"
    and pre: "\<forall>x \<in> set pre. space_or_nbsp rt x"
    and w: "space_or_nbsp rt w"
  shows "SECTION_PATTERN_match rt (pre @ [40, c, 41] @ w # rest) = Some [40, c, 41]"
proof -
  let ?s = "40 # c # 41 # w # rest"
  have n40: "\<not> space_or_nbsp rt 40"
    by (simp add: space_or_nbsp_def is_space_def)
  have star_s: "rx_match (Star (Cls (space_or_nbsp rt))) ?s = [?s]"
    using n40 by simp
  obtain others where
    o: "rx_match (Star (Cls (space_or_nbsp rt))) (pre @ ?s) = ?s # others"
    using rx_match_Star_Cls_prefix [OF pre, of ?s] star_s by auto
  have num: "rx_match (numeric_rx rt) ?s = []"
    by (simp add: numeric_rx_def Plus_def is_decimal_def)
  have ap: "rx_match alpha_paren_rx ?s = [w # rest]"
    using roman_letter_ascii_letter [OF c] by (simp add: alpha_paren_rx_def Lit_def)
  obtain ys where m: "rx_match (marker_rx rt) ?s = (w # rest) # ys"
    by (simp add: marker_rx_def num ap)
  have plus: "rx_match (Plus (Cls (space_or_nbsp rt))) (w # rest) \<noteq> []"
    using w rx_match_Star_nonempty [of "Cls (space_or_nbsp rt)" rest] by (simp add: Plus_def)
  have t: "pre @ [40, c, 41] @ w # rest = pre @ ?s" by simp
  show ?thesis
    unfolding SECTION_PATTERN_match_def t o by (simp add: m plus)
qed

lemma get_section_level_paren_letter:
  assumes c: "roman_letter c"
    and pre: "\<forall>x \<in> set pre. space_or_nbsp rt x"
    and w: "space_or_nbsp rt w"
  shows "get_section_level rt (pre @ [40, c, 41] @ w # rest) = (10, alpha_paren)"
proof -
  have s: "strip rt [40, c, 41] = [40, c, 41]"
    by (simp add: strip_def lstrip_def rstrip_def is_space_def)
  have num: "\<not> rx_match_dollar (numeric_rx rt) [40, c, 41]"
    by (simp add: rx_match_dollar_def numeric_rx_def Plus_def is_decimal_def)
  have ap: "rx_match_dollar alpha_paren_rx [40, c, 41]"
    using roman_letter_ascii_letter [OF c]
    by (simp add: rx_match_dollar_def alpha_paren_rx_def Lit_def)
  show ?thesis
    unfolding get_section_level_def SECTION_PATTERN_match_paren_letter [OF c pre w]
    by (simp add: s num ap)
qed

text \<open>
  Claim C10. A paragraph text that starts (after optional blanks) with one
  letter in parentheses, the letter being one of \<^verbatim>\<open>ivxlcdm\<close> or \<^verbatim>\<open>IVXLCDM\<close>, followed
  by a blank, is classified by \<^verbatim>\<open>get_section_level\<close> as \<^verbatim>\<open>alpha_paren\<close> at level 10,
  not as \<^verbatim>\<open>roman_paren\<close>. In \<^verbatim>\<open>find_section\<close> such a paragraph therefore ends a
  section whose first paragraph is \<^verbatim>\<open>alpha_paren\<close>, and does not end one whose
  first paragraph is \<^verbatim>\<open>roman_paren\<close>.
\<close>

theorem single_roman_letter_is_alpha_paren:
  assumes "roman_letter c"
    and "\<forall>x \<in> set pre. space_or_nbsp rt x"
    and "space_or_nbsp rt w"
  shows "get_section_level rt (pre @ [40, c, 41] @ w # rest) = (10, alpha_paren) \<and>
         section_boundary rt (10, alpha_paren) (pre @ [40, c, 41] @ w # rest) \<and>
         \<not> section_boundary rt (11, roman_paren) (pre @ [40, c, 41] @ w # rest)"
proof -
  have l: "get_section_level rt (pre @ [40, c, 41] @ w # rest) = (10, alpha_paren)"
    using assms by (rule get_section_level_paren_letter)
  have m: "is_section_start rt (pre @ [40, c, 41] @ w # rest)"
    unfolding is_section_start_def SECTION_PATTERN_match_paren_letter [OF assms] by simp
  show ?thesis
    unfolding section_boundary_def l using m by simp
qed

theorem single_roman_letter_is_alpha_paren_witness:
  "get_section_level ascii_rt ([32, 32] @ [40, 105, 41] @ 32 # [102, 111, 111])
     = (10, alpha_paren)"
proof -
  have a: "roman_letter 105" by (simp add: roman_letter_def)
  have b: "\<forall>x \<in> set [32, 32]. space_or_nbsp ascii_rt x"
    by (simp add: space_or_nbsp_def is_space_def)
  have c: "space_or_nbsp ascii_rt 32" by (simp add: space_or_nbsp_def is_space_def)
  from single_roman_letter_is_alpha_paren [OF a b c, of "[102, 111, 111]"]
  show ?thesis by blast
qed

lemma find_section_loop_found:
  "find_section_loop rt section_id result True (Some target) paragraphs =
     result @ takeWhile (\<lambda>p. \<not> section_boundary rt target (get_paragraph_text p)) paragraphs"
proof (induction paragraphs arbitrary: result)
  case Nil
  show ?case by simp
next
  case (Cons para paragraphs)
  show ?case
  proof (cases "section_boundary rt target (get_paragraph_text para)")
    case True
    then show ?thesis
      by (auto simp add: section_boundary_def Let_def case_prod_unfold)
  next
    case False
    then have "find_section_loop rt section_id result True (Some target) (para # paragraphs)
        = find_section_loop rt section_id (result @ [para]) True (Some target) paragraphs"
      by (auto simp add: section_boundary_def Let_def case_prod_unfold)
    with False Cons.IH [of "result @ [para]"] show ?thesis by simp
  qed
qed

lemma find_section_loop_search:
  "find_section_loop rt section_id [] False None paragraphs =
     (case dropWhile (\<lambda>p. \<not> starts_section rt section_id (get_paragraph_text p)) paragraphs of
        [] \<Rightarrow> []
      | start # later \<Rightarrow>
          start # takeWhile (\<lambda>p. \<not> section_boundary rt
                     (get_section_level rt (get_paragraph_text start)) (get_paragraph_text p)) later)"
proof (induction paragraphs)
  case Nil
  show ?case by simp
next
  case (Cons para paragraphs)
  show ?case
  proof (cases "starts_section rt section_id (get_paragraph_text para)")
    case True
    then show ?thesis by (simp add: Let_def find_section_loop_found)
  next
    case False
    with Cons.IH show ?thesis by (simp add: Let_def)
  qed
qed

text \<open>
  Claim C8. \<^verbatim>\<open>find_section\<close> skips the paragraphs before the first one that
  starts the section asked for. From that paragraph on it returns the
  paragraph itself and all the paragraphs after it up to, and without, the
  first one that is a boundary: a paragraph with a marker of the numbering
  type of the starting paragraph at the same or a shallower depth, or with a
  numeric marker at depth at most 2. When no paragraph starts the section the
  result is empty.
\<close>

theorem find_section_until_boundary:
  "find_section rt root section_id =
     (case dropWhile (\<lambda>p. \<not> starts_section rt section_id (get_paragraph_text p))
             (find_paragraphs root) of
        [] \<Rightarrow> []
      | start # later \<Rightarrow>
          start # takeWhile (\<lambda>p. \<not> section_boundary rt
                     (get_section_level rt (get_paragraph_text start)) (get_paragraph_text p)) later)"
  unfolding find_section_def by (rule find_section_loop_search)

theorem find_section_until_boundary_witness:
  "find_section ascii_rt
     (example_document [example_para ''Lease'', example_para ''3.1 Rent'',
        example_para ''due monthly'', example_para ''(a) in advance'',
        example_para ''3.2 Term'', example_para ''five years''])
     (py ''3.1'') =
   [example_para ''3.1 Rent'', example_para ''due monthly'', example_para ''(a) in advance'']"
  unfolding find_section_until_boundary by code_simp

lemma find_section_text_loop_found:
  "find_section_text_loop rt section_id result_texts True paragraphs =
     result_texts @ map get_paragraph_text
       (takeWhile (\<lambda>p. \<not> is_section_start rt (get_paragraph_text p)) paragraphs)"
proof (induction paragraphs arbitrary: result_texts)
  case Nil
  show ?case by simp
next
  case (Cons para paragraphs)
  show ?case
  proof (cases "is_section_start rt (get_paragraph_text para)")
    case True
    then show ?thesis by (simp add: is_section_start_def Let_def)
  next
    case False
    then have "find_section_text_loop rt section_id result_texts True (para # paragraphs)
        = find_section_text_loop rt section_id (result_texts @ [get_paragraph_text para]) True
            paragraphs"
      by (simp add: is_section_start_def Let_def)
    with False Cons.IH [of "result_texts @ [get_paragraph_text para]"] show ?thesis by simp
  qed
qed

lemma find_section_text_loop_search:
  "find_section_text_loop rt section_id [] False paragraphs =
     (case dropWhile (\<lambda>p. \<not> starts_section rt section_id (get_paragraph_text p)) paragraphs of
        [] \<Rightarrow> []
      | start # later \<Rightarrow>
          map get_paragraph_text
            (start # takeWhile (\<lambda>p. \<not> is_section_start rt (get_paragraph_text p)) later))"
proof (induction paragraphs)
  case Nil
  show ?case by simp
next
  case (Cons para paragraphs)
  show ?case
  proof (cases "starts_section rt section_id (get_paragraph_text para)")
    case True
    then show ?thesis by (simp add: Let_def find_section_text_loop_found)
  next
    case False
    with Cons.IH show ?thesis by (simp add: Let_def)
  qed
qed

text \<open>
  Claim C9, as the code has it. When some paragraph starts the section asked
  for, \<^verbatim>\<open>find_section_text\<close> returns one string: the texts of the matched
  paragraphs (the starting paragraph and those after it up to the next
  paragraph with a section marker) joined with a single space between
  consecutive texts. When no paragraph starts the section, or the document
  could not be read, it returns \<^verbatim>\<open>None\<close>.
\<close>

theorem find_section_text_joined:
  "find_section_text rt (Some root) section_id =
     (case dropWhile (\<lambda>p. \<not> starts_section rt section_id (get_paragraph_text p))
             (find_paragraphs root) of
        [] \<Rightarrow> None
      | start # later \<Rightarrow>
          Some (join [32] (map get_paragraph_text
            (start # takeWhile (\<lambda>p. \<not> is_section_start rt (get_paragraph_text p)) later)))) \<and>
   find_section_text rt None section_id = None"
proof -
  show ?thesis
  proof (cases "dropWhile (\<lambda>p. \<not> starts_section rt section_id (get_paragraph_text p))
             (find_paragraphs root)")
    case Nil
    then show ?thesis
      by (simp add: find_section_text_def find_section_text_loop_search
          del: dropWhile_eq_Nil_conv)
  next
    case (Cons start later)
    then show ?thesis
      by (simp add: find_section_text_def find_section_text_loop_search)
  qed
qed

theorem find_section_text_joined_witness:
  "find_section_text ascii_rt
     (Some (example_document [example_para ''Lease'', example_para ''1 a'',
        example_para ''b'', example_para ''2 c'']))
     (py ''1'') = Some (py ''1 a b'')"
  unfolding find_section_text_joined [THEN conjunct1] by code_simp

theorem find_section_text_not_concatenation:
  "find_section_text ascii_rt
     (Some (example_document [example_para ''1 a'', example_para ''b''])) (py ''1'')
     = Some (py ''1 a b'') \<and>
   concat (map get_paragraph_text
     (find_paragraphs (example_document [example_para ''1 a'', example_para ''b''])))
     = py ''1 ab''"
  by code_simp

end
